theory Spec2Isabelle
  imports Main "HOL-Library.Sublist"
begin

section \<open>Python strings and exceptions\<close>

text \<open>
  Strings are \<^typ>\<open>string\<close> (lists of characters). Exceptions raised by the Python
  code are values of \<open>py_exc\<close>; a function that may raise returns \<open>py_exc + 'a\<close>,
  with \<open>Inl\<close> for the exception.
\<close>

datatype py_exc =
    ValueError string
  | KeyError string
  | TypeError
  | AttributeError
  | IndexError
  | IntegrityError
  | InterfaceError
  | OverflowError
  | OperationalError string
  | RuntimeError string
  | CancelledError
  | OtherError string

text \<open>\<open>s.startswith(p)\<close>\<close>

definition startswith :: "string \<Rightarrow> string \<Rightarrow> bool" where
  "startswith s p = (take (length p) s = p)"

text \<open>
  \<open>s.split(sep, 1)\<close> for a non-empty separator: \<open>find_sep\<close> cuts \<open>s\<close> at the
  first (leftmost) occurrence of \<open>sep\<close>; the result list has two elements when the
  separator occurs and one otherwise.
\<close>

fun find_sep :: "string \<Rightarrow> string \<Rightarrow> (string \<times> string) option" where
  "find_sep sep [] = (if sep = [] then Some ([], []) else None)"
| "find_sep sep (c # cs) =
     (if startswith (c # cs) sep then Some ([], drop (length sep) (c # cs))
      else map_option (\<lambda>(a, b). (c # a, b)) (find_sep sep cs))"

definition split_once :: "string \<Rightarrow> string \<Rightarrow> string list" where
  "split_once sep s = (case find_sep sep s of None \<Rightarrow> [s] | Some (a, b) \<Rightarrow> [a, b])"

section \<open>Canonical identifier codec (utils.py)\<close>

definition rid_prefix :: string where
  "rid_prefix = ''orn:github.repo:''"

definition invalid_rid :: "string \<Rightarrow> py_exc" where
  "invalid_rid repo_rid = ValueError (''Invalid GitHub repository RID format: '' @ repo_rid)"

text \<open>\<open>owner_repo_to_repo_rid\<close>: \<open>f"orn:github.repo:{owner}/{repo}"\<close> on two strings.\<close>

definition owner_repo_to_repo_rid :: "string \<Rightarrow> string \<Rightarrow> string" where
  "owner_repo_to_repo_rid owner repo = rid_prefix @ owner @ ''/'' @ repo"

text \<open>
  \<open>repo_rid_to_owner_repo\<close>: the prefix test, then \<open>split(prefix, 1)[1]\<close>, then the
  tuple unpacking of \<open>split("/", 1)\<close>, whose \<open>ValueError\<close> (a one-element list) is
  caught and raised again with the function's own message.
\<close>

definition repo_rid_to_owner_repo :: "string \<Rightarrow> py_exc + (string \<times> string)" where
  "repo_rid_to_owner_repo repo_rid =
     (if \<not> startswith repo_rid rid_prefix then Inl (invalid_rid repo_rid)
      else case split_once rid_prefix repo_rid of
             [_, owner_repo] \<Rightarrow>
               (case split_once ''/'' owner_repo of
                  [owner, repo] \<Rightarrow> Inr (owner, repo)
                | _ \<Rightarrow> Inl (invalid_rid repo_rid))
           | _ \<Rightarrow> Inl IndexError)"

section \<open>Python values decoded from JSON\<close>

text \<open>
  An event payload is the Python value \<open>json.loads\<close> gives: \<open>None\<close>, a \<open>bool\<close>, an
  \<open>int\<close>, a \<open>str\<close>, a \<open>list\<close> or a \<open>dict\<close> with string keys. Python's \<open>None\<close> and
  JSON's \<open>null\<close> are the same value, \<open>JNull\<close>. A dict is an association list read
  with \<^const>\<open>map_of\<close>. Numbers with a fraction (Python floats) are outside the model,
  and characters are those of ASCII.
\<close>

datatype json =
    JNull
  | JBool bool
  | JInt int
  | JStr string
  | JArr "json list"
  | JObj "(string \<times> json) list"

text \<open>\<open>k in d\<close> and \<open>d.get(k, default)\<close> on a dict.\<close>

definition has_key :: "(string \<times> json) list \<Rightarrow> string \<Rightarrow> bool" where
  "has_key d k = (map_of d k \<noteq> None)"

definition dict_get :: "(string \<times> json) list \<Rightarrow> string \<Rightarrow> json \<Rightarrow> json" where
  "dict_get d k dflt = (case map_of d k of None \<Rightarrow> dflt | Some v \<Rightarrow> v)"

text \<open>
  \<open>v[k]\<close> with a string key: a dict raises \<open>KeyError\<close> on a missing key, every
  other value raises \<open>TypeError\<close> (a str or list index must be an integer; \<open>None\<close>,
  \<open>bool\<close> and \<open>int\<close> are not subscriptable).
\<close>

fun subscript :: "json \<Rightarrow> string \<Rightarrow> py_exc + json" where
  "subscript (JObj d) k = (case map_of d k of None \<Rightarrow> Inl (KeyError k) | Some v \<Rightarrow> Inr v)"
| "subscript _ k = Inl TypeError"

text \<open>\<open>v.get(k, default)\<close> on any value: only a dict has the method.\<close>

fun method_get :: "json \<Rightarrow> string \<Rightarrow> json \<Rightarrow> py_exc + json" where
  "method_get (JObj d) k dflt = Inr (dict_get d k dflt)"
| "method_get _ k dflt = Inl AttributeError"

text \<open>Truth value of a Python value, as \<open>if v:\<close> tests it.\<close>

fun truthy :: "json \<Rightarrow> bool" where
  "truthy JNull = False"
| "truthy (JBool b) = b"
| "truthy (JInt n) = (n \<noteq> 0)"
| "truthy (JStr s) = (s \<noteq> [])"
| "truthy (JArr xs) = (xs \<noteq> [])"
| "truthy (JObj d) = (d \<noteq> [])"

text \<open>\<open>sep.join(parts)\<close>\<close>

fun py_join :: "string \<Rightarrow> string list \<Rightarrow> string" where
  "py_join sep [] = []"
| "py_join sep [x] = x"
| "py_join sep (x # y # ys) = x @ sep @ py_join sep (y # ys)"

text \<open>\<open>s.split(c)\<close> for a one-character separator: every occurrence cuts.\<close>

fun split_char :: "char \<Rightarrow> string \<Rightarrow> string list" where
  "split_char c [] = [[]]"
| "split_char c (x # xs) =
     (if x = c then [] # split_char c xs
      else (case split_char c xs of [] \<Rightarrow> [[x]] | p # ps \<Rightarrow> (x # p) # ps))"

text \<open>\<open>s.replace(a, b)\<close> for a one-character \<open>a\<close>.\<close>

definition replace_char :: "char \<Rightarrow> string \<Rightarrow> string \<Rightarrow> string" where
  "replace_char a b s = concat (map (\<lambda>x. if x = a then b else [x]) s)"

subsection \<open>\<open>str()\<close> and \<open>repr()\<close>, as f-strings use them\<close>

definition digit_char :: "nat \<Rightarrow> char" where
  "digit_char d = char_of (of_char CHR ''0'' + d)"

fun nat_digits :: "nat \<Rightarrow> string" where
  "nat_digits n = (if n < 10 then [digit_char n] else nat_digits (n div 10) @ [digit_char (n mod 10)])"

declare nat_digits.simps [simp del]

definition int_str :: "int \<Rightarrow> string" where
  "int_str i = (if i < 0 then CHR ''-'' # nat_digits (nat (- i)) else nat_digits (nat i))"

definition hex_char :: "nat \<Rightarrow> char" where
  "hex_char d = (if d < 10 then digit_char d else char_of (of_char CHR ''a'' + (d - 10)))"

text \<open>
  \<open>repr\<close> of a str: double quotes when the text holds a single quote and no double
  quote, single quotes otherwise; the quote in use and the backslash are escaped, and
  so are the control characters.
\<close>

definition repr_char :: "char \<Rightarrow> char \<Rightarrow> string" where
  "repr_char q c =
     (if c = q \<or> c = CHR 0x5C then [CHR 0x5C, c]
      else if c = CHR 0x09 then [CHR 0x5C, CHR ''t'']
      else if c = CHR 0x0A then [CHR 0x5C, CHR ''n'']
      else if c = CHR 0x0D then [CHR 0x5C, CHR ''r'']
      else if (of_char c :: nat) < 32 \<or> (of_char c :: nat) = 127
        then [CHR 0x5C, CHR ''x'', hex_char (of_char c div 16), hex_char (of_char c mod 16)]
      else [c])"

definition repr_str :: "string \<Rightarrow> string" where
  "repr_str s =
     (let q = (if CHR 0x27 \<in> set s \<and> CHR 0x22 \<notin> set s then CHR 0x22 else CHR 0x27)
      in [q] @ concat (map (repr_char q) s) @ [q])"

fun py_repr :: "json \<Rightarrow> string" where
  "py_repr JNull = ''None''"
| "py_repr (JBool b) = (if b then ''True'' else ''False'')"
| "py_repr (JInt i) = int_str i"
| "py_repr (JStr s) = repr_str s"
| "py_repr (JArr xs) = ''['' @ py_join '', '' (map py_repr xs) @ '']''"
| "py_repr (JObj d) =
     ''{'' @ py_join '', '' (map (\<lambda>kv. repr_str (fst kv) @ '': '' @ py_repr (snd kv)) d) @ ''}''"

text \<open>\<open>f"{v}"\<close>: a str is inserted as it is, any other value by its \<open>repr\<close>.\<close>

fun py_format :: "json \<Rightarrow> string" where
  "py_format (JStr s) = s"
| "py_format v = py_repr v"

section \<open>The index store (index\_db.py)\<close>

text \<open>
  Values as SQLite stores them. The two tables are keyed by their primary keys
  (\<open>repositories.repo_rid\<close>, \<open>events.event_rid\<close>), so each is a map from the key to
  the row's other columns. Column affinity (SQLite's conversion of a stored value to
  the column's declared type) is outside the model: a row holds the values as bound.
  The schema declares a foreign key from \<open>events.repo_rid\<close> to \<open>repositories\<close>, which
  SQLite does not enforce unless \<open>PRAGMA foreign_keys\<close> is switched on; the code never
  switches it on, so no statement fails on it.
\<close>

datatype sqlval = SNull | SInt int | SText string

record repo_row =
  r_repo_url :: sqlval
  r_first_indexed :: sqlval
  r_last_updated :: sqlval

record event_row =
  e_repo_rid :: sqlval
  e_event_type :: sqlval
  e_timestamp :: sqlval
  e_commit_sha :: sqlval
  e_summary :: sqlval
  e_bundle_rid :: sqlval

text \<open>
  The database file. Besides the rows it holds its write lock. The \<open>sqlite3\<close> module
  opens a transaction before an \<open>INSERT\<close>, \<open>UPDATE\<close> or \<open>DELETE\<close>; the statement takes
  the write lock of the file when it starts, and only \<open>commit\<close>, \<open>rollback\<close> or the end
  of the connection gives it back. \<open>add_repository\<close>, \<open>add_event_metadata\<close> and
  \<open>prune_old_data\<close> have no \<open>try\<close>/\<open>finally\<close>: when \<open>execute\<close> raises, \<open>conn.close()\<close> is
  skipped and the connection stays open until the interpreter frees it. A connection
  left open by a statement that SQLite refused after it had started (a constraint
  failure) still holds the write lock: \<open>write_locked\<close>. While it does, a write through
  any other connection waits for the busy timeout and raises
  \<open>OperationalError("database is locked")\<close>; reading is not hindered. A connection
  left open by a parameter that could not be bound, or by a statement that found the
  database locked, holds no lock.
\<close>

record index_db =
  repositories :: "string \<rightharpoonup> repo_row"
  events :: "string \<rightharpoonup> event_row"
  write_locked :: bool

text \<open>
  The interpreter frees a connection that was left open: its transaction is rolled
  back and its lock given back. The rows are those of the last commit, which is what
  the record holds, so only the lock changes. When this happens is up to the
  interpreter (at once when the last reference to the connection goes, or at the next
  run of the collector).
\<close>

definition connection_freed :: "index_db \<Rightarrow> index_db" where
  "connection_freed db = db\<lparr>write_locked := False\<rparr>"

text \<open>
  A storage call either returns, leaving a database (\<open>Inr\<close>), or raises, leaving a
  database as well (\<open>Inl\<close>, the exception and the database). \<open>db_left\<close> is the database
  in both cases.
\<close>

type_synonym db_result = "(py_exc \<times> index_db) + index_db"

definition db_left :: "db_result \<Rightarrow> index_db" where
  "db_left r = (case r of Inl (e, db) \<Rightarrow> db | Inr db \<Rightarrow> db)"

text \<open>
  Binding a Python value to a \<open>?\<close> placeholder: \<open>None\<close>, \<open>int\<close> (and \<open>bool\<close>, a
  subclass of \<open>int\<close>) and \<open>str\<close> are supported; an \<open>int\<close> outside 64 bits raises
  \<open>OverflowError\<close>; a list or dict raises the module's binding error.
\<close>

fun to_sql :: "json \<Rightarrow> py_exc + sqlval" where
  "to_sql JNull = Inr SNull"
| "to_sql (JBool b) = Inr (SInt (if b then 1 else 0))"
| "to_sql (JInt n) =
     (if - (2 ^ 63) \<le> n \<and> n < 2 ^ 63 then Inr (SInt n) else Inl OverflowError)"
| "to_sql (JStr s) = Inr (SText s)"
| "to_sql (JArr xs) = Inl InterfaceError"
| "to_sql (JObj d) = Inl InterfaceError"

text \<open>
  \<open>add_repository\<close>. The \<open>SELECT\<close> decides between \<open>UPDATE\<close> and \<open>INSERT\<close>. Either
  statement first binds its parameters (\<open>repo_url\<close> may be of a type that cannot be
  bound), then starts, which needs the write lock, and is then refused by the
  \<open>NOT NULL\<close> constraint on \<open>repo_url\<close> when the URL is \<open>None\<close> (\<open>IntegrityError\<close>). An
  exception leaves the function before \<open>conn.commit()\<close>, so the rows are as they
  were. \<open>now\<close> is the value of \<open>CURRENT_TIMESTAMP\<close>.
\<close>

definition add_repository :: "string \<Rightarrow> index_db \<Rightarrow> string \<Rightarrow> json \<Rightarrow> db_result" where
  "add_repository now db repo_rid repo_url =
     (case to_sql repo_url of
        Inl e \<Rightarrow> Inl (e, db)
      | Inr url \<Rightarrow>
          if write_locked db then Inl (OperationalError ''database is locked'', db)
          else if url = SNull then Inl (IntegrityError, db\<lparr>write_locked := True\<rparr>)
          else (case repositories db repo_rid of
                  Some row \<Rightarrow>
                    Inr (db\<lparr>repositories := (repositories db)
                           (repo_rid \<mapsto> row\<lparr>r_last_updated := SText now, r_repo_url := url\<rparr>)\<rparr>)
                | None \<Rightarrow>
                    Inr (db\<lparr>repositories := (repositories db)
                           (repo_rid \<mapsto> \<lparr>r_repo_url = url, r_first_indexed = SText now,
                                         r_last_updated = SText now\<rparr>)\<rparr>)))"

text \<open>
  \<open>add_event_metadata\<close>. \<open>INSERT OR REPLACE\<close> binds its seven parameters in order,
  starts, which needs the write lock, and replaces the row with the same
  \<open>event_rid\<close>; a \<open>NULL\<close> in a \<open>NOT NULL\<close> column without a default (\<open>event_type\<close>,
  \<open>timestamp\<close>) aborts the statement with \<open>IntegrityError\<close>. Then the repository row
  is looked up and, when absent, inserted with the placeholder URL
  \<open>f"orn:{repo_rid}"\<close>. One \<open>conn.commit()\<close> ends the function: the event row and the
  placeholder row are one transaction, and an exception leaves the rows as they were.
\<close>

definition add_event_metadata ::
  "string \<Rightarrow> index_db \<Rightarrow> string \<Rightarrow> string \<Rightarrow> json \<Rightarrow> json \<Rightarrow> json \<Rightarrow> string \<Rightarrow> string
     \<Rightarrow> db_result" where
  "add_event_metadata now db event_rid repo_rid event_type timestamp commit_sha summary
     bundle_rid =
     (case to_sql event_type of
        Inl e \<Rightarrow> Inl (e, db)
      | Inr ty \<Rightarrow>
     (case to_sql timestamp of
        Inl e \<Rightarrow> Inl (e, db)
      | Inr ts \<Rightarrow>
     (case to_sql commit_sha of
        Inl e \<Rightarrow> Inl (e, db)
      | Inr sha \<Rightarrow>
          if write_locked db then Inl (OperationalError ''database is locked'', db)
          else if ty = SNull \<or> ts = SNull then Inl (IntegrityError, db\<lparr>write_locked := True\<rparr>)
          else
            let row = \<lparr>e_repo_rid = SText repo_rid, e_event_type = ty, e_timestamp = ts,
                       e_commit_sha = sha, e_summary = SText summary,
                       e_bundle_rid = SText bundle_rid\<rparr>;
                db1 = db\<lparr>events := (events db)(event_rid \<mapsto> row)\<rparr>
            in (case repositories db1 repo_rid of
                  Some _ \<Rightarrow> Inr db1
                | None \<Rightarrow>
                    Inr (db1\<lparr>repositories := (repositories db1)
                           (repo_rid \<mapsto> \<lparr>r_repo_url = SText (''orn:'' @ repo_rid),
                                         r_first_indexed = SText now,
                                         r_last_updated = SText now\<rparr>)\<rparr>)))))"

text \<open>
  \<open>update_repository_latest_commit\<close>: an \<open>UPDATE\<close> of \<open>last_updated\<close>; its own
  \<open>try\<close> logs any error (a parameter that cannot be bound, a locked database) and its
  \<open>finally\<close> closes the connection, so it never raises and leaves no connection open.
  \<open>last_updated\<close> has no \<open>NOT NULL\<close> constraint.
\<close>

definition update_repository_latest_commit :: "index_db \<Rightarrow> string \<Rightarrow> json \<Rightarrow> index_db" where
  "update_repository_latest_commit db repo_rid timestamp =
     (case to_sql timestamp of
        Inl e \<Rightarrow> db
      | Inr ts \<Rightarrow>
          if write_locked db then db
          else
          (case repositories db repo_rid of
             None \<Rightarrow> db
           | Some row \<Rightarrow>
               db\<lparr>repositories := (repositories db)(repo_rid \<mapsto> row\<lparr>r_last_updated := ts\<rparr>)\<rparr>))"

text \<open>
  \<open>prune_old_data\<close>: \<open>DELETE FROM events WHERE timestamp < datetime('now', ...)\<close>.
  The comparison of a stored timestamp with the cut-off date is SQLite's; it is the
  parameter \<open>older\<close> here. Only event rows are deleted. On a locked database the
  \<open>DELETE\<close> raises and nothing is deleted.
\<close>

definition prune_old_data :: "(sqlval \<Rightarrow> bool) \<Rightarrow> index_db \<Rightarrow> db_result" where
  "prune_old_data older db =
     (if write_locked db then Inl (OperationalError ''database is locked'', db)
      else
        Inr (db\<lparr>events := (\<lambda>k. case events db k of
                          None \<Rightarrow> None
                        | Some row \<Rightarrow> if older (e_timestamp row) then None else Some row)\<rparr>))"

text \<open>A database with no rows and no connection left open.\<close>

definition empty_db :: index_db where
  "empty_db = \<lparr>repositories = Map.empty, events = Map.empty, write_locked = False\<rparr>"

text \<open>
  Referential integrity between the two tables: every event row names, in \<open>repo_rid\<close>,
  a repository row that exists.
\<close>

definition no_orphans :: "index_db \<Rightarrow> bool" where
  "no_orphans db =
     (\<forall>k row. events db k = Some row \<longrightarrow>
        (\<exists>rid. e_repo_rid row = SText rid \<and> repositories db rid \<noteq> None))"

section \<open>Event summaries (utils.py)\<close>

definition is_lower :: "char \<Rightarrow> bool" where
  "is_lower c = ((of_char CHR ''a'' :: nat) \<le> of_char c \<and> (of_char c :: nat) \<le> of_char CHR ''z'')"

definition is_upper :: "char \<Rightarrow> bool" where
  "is_upper c = ((of_char CHR ''A'' :: nat) \<le> of_char c \<and> (of_char c :: nat) \<le> of_char CHR ''Z'')"

definition to_upper :: "char \<Rightarrow> char" where
  "to_upper c = (if is_lower c then char_of ((of_char c :: nat) - 32) else c)"

definition to_lower :: "char \<Rightarrow> char" where
  "to_lower c = (if is_upper c then char_of ((of_char c :: nat) + 32) else c)"

text \<open>
  \<open>s.title()\<close>: a letter that follows a letter is lowered, a letter that follows
  anything else is raised; the flag says whether the previous character was a letter.
\<close>

fun title_from :: "bool \<Rightarrow> string \<Rightarrow> string" where
  "title_from prev [] = []"
| "title_from prev (c # cs) =
     (if is_lower c then (if prev then c else to_upper c) # title_from True cs
      else if is_upper c then (if prev then to_lower c else c) # title_from True cs
      else c # title_from False cs)"

definition title :: "string \<Rightarrow> string" where
  "title s = title_from False s"

text \<open>
  \<open>commit_sha[:7]\<close>: a slice of a str or a list; every other value raises (an
  \<open>int\<close> is not subscriptable, a dict refuses a slice as key).
\<close>

fun slice7 :: "json \<Rightarrow> py_exc + json" where
  "slice7 (JStr s) = Inr (JStr (take 7 s))"
| "slice7 (JArr xs) = Inr (JArr (take 7 xs))"
| "slice7 _ = Inl TypeError"

text \<open>The \<open>try\<close> at the head of \<open>summarize_event\<close>: only \<open>ValueError\<close> is caught.\<close>

definition owner_repo_or_unknown :: "string \<Rightarrow> py_exc + (string \<times> string)" where
  "owner_repo_or_unknown repo_rid =
     (case repo_rid_to_owner_repo repo_rid of
        Inr p \<Rightarrow> Inr p
      | Inl (ValueError m) \<Rightarrow> Inr (''unknown'', ''unknown'')
      | Inl e \<Rightarrow> Inl e)"

text \<open>
  \<open>summarize_event(event_type, repo_rid, commit_sha, additional_info)\<close>. The caller
  passes the whole payload as \<open>additional_info\<close>; \<open>commit_sha\<close> is \<open>JNull\<close> for
  \<open>None\<close>. The last branch calls \<open>event_type.replace\<close>, a method of \<open>str\<close> only.
\<close>

definition info_get :: "(string \<times> json) list \<Rightarrow> string \<Rightarrow> string \<Rightarrow> json" where
  "info_get additional_info k dflt =
     (if additional_info \<noteq> [] then dict_get additional_info k (JStr dflt) else JStr dflt)"

definition summarize_event ::
  "json \<Rightarrow> string \<Rightarrow> json \<Rightarrow> (string \<times> json) list \<Rightarrow> py_exc + string" where
  "summarize_event event_type repo_rid commit_sha additional_info =
     (case owner_repo_or_unknown repo_rid of
        Inl e \<Rightarrow> Inl e
      | Inr (owner, repo) \<Rightarrow>
          if event_type = JStr ''push'' then
            (if truthy commit_sha then
               (case slice7 commit_sha of
                  Inl e \<Rightarrow> Inl e
                | Inr short \<Rightarrow>
                    Inr (''Push to '' @ owner @ ''/'' @ repo @ '': '' @ py_format short))
             else Inr (''Push to '' @ owner @ ''/'' @ repo))
          else if event_type = JStr ''pull_request'' then
            (let action = info_get additional_info ''action'' ''updated'';
                 pr_number = info_get additional_info ''number'' ''unknown''
             in Inr (''Pull request #'' @ py_format pr_number @ '' '' @ py_format action
                      @ '' in '' @ owner @ ''/'' @ repo))
          else if event_type = JStr ''issues'' then
            (let action = info_get additional_info ''action'' ''updated'';
                 issue_number = info_get additional_info ''number'' ''unknown''
             in Inr (''Issue #'' @ py_format issue_number @ '' '' @ py_format action
                      @ '' in '' @ owner @ ''/'' @ repo))
          else if event_type = JStr ''release'' then
            (let tag = info_get additional_info ''tag_name'' ''unknown''
             in Inr (''Release '' @ py_format tag @ '' created in '' @ owner @ ''/'' @ repo))
          else
            (case event_type of
               JStr s \<Rightarrow>
                 Inr (title (replace_char CHR ''_'' '' '' s) @ '' event in '' @ owner
                       @ ''/'' @ repo)
             | _ \<Rightarrow> Inl AttributeError))"

section \<open>The ingestion (repository.py)\<close>

text \<open>
  The result dict of \<open>process_github_event_bundle\<close>. The message of an \<open>error\<close>
  result is \<open>str(e)\<close> of the exception caught; it is kept as the exception.
\<close>

datatype message = Text string | ExcText py_exc

record outcome =
  status :: string
  message :: message
  details :: "(string \<times> json) list"

text \<open>
  What the first block of the \<open>try\<close> (the \<open>if\<close>/\<open>elif\<close> chain over the payload's
  shape) leaves: either the early \<open>skipped\<close> return with its message, or the four
  variables \<open>owner\<close>, \<open>repo\<close>, \<open>repo_url\<close>, \<open>event_source\<close>.
\<close>

datatype repo_info = Skipped string | Repo json json json json

text \<open>\<open>xs.index(x)\<close> when \<open>x in xs\<close>: the position of the first occurrence.\<close>

fun index_of :: "'a \<Rightarrow> 'a list \<Rightarrow> nat option" where
  "index_of x [] = None"
| "index_of x (y # ys) = (if x = y then Some 0 else map_option Suc (index_of x ys))"

text \<open>\<open>payload["repository"]["owner"]["login"]\<close> and the like.\<close>

definition subscript2 :: "json \<Rightarrow> string \<Rightarrow> string \<Rightarrow> py_exc + json" where
  "subscript2 v k1 k2 = (case subscript v k1 of Inl e \<Rightarrow> Inl e | Inr w \<Rightarrow> subscript w k2)"

text \<open>
  The three fields of a repository object, read in the source's order: \<open>owner.login\<close>,
  \<open>name\<close>, \<open>clone_url\<close>.
\<close>

definition repo_fields :: "json \<Rightarrow> json \<Rightarrow> py_exc + repo_info" where
  "repo_fields obj event_source =
     (case subscript2 obj ''owner'' ''login'' of
        Inl e \<Rightarrow> Inl e
      | Inr owner \<Rightarrow>
     (case subscript obj ''name'' of
        Inl e \<Rightarrow> Inl e
      | Inr repo \<Rightarrow>
     (case subscript obj ''clone_url'' of
        Inl e \<Rightarrow> Inl e
      | Inr repo_url \<Rightarrow> Inr (Repo owner repo repo_url event_source))))"

text \<open>
  The backfill-commit branch: \<open>commit_url.split('/')\<close> (a method of \<open>str\<close> only), the
  position of the first \<open>"repos"\<close> part, and the two parts after it.
\<close>

definition commit_url_info :: "json \<Rightarrow> py_exc + repo_info" where
  "commit_url_info commit_url =
     (case commit_url of
        JStr url \<Rightarrow>
          (let url_parts = split_char CHR ''/'' url in
           case index_of ''repos'' url_parts of
             Some repos_index \<Rightarrow>
               if length url_parts > repos_index + 2 then
                 (let owner = url_parts ! (repos_index + 1);
                      repo = url_parts ! (repos_index + 2);
                      repo_url = ''https://github.com/'' @ owner @ ''/'' @ repo @ ''.git''
                  in Inr (Repo (JStr owner) (JStr repo) (JStr repo_url) (JStr ''commit'')))
               else Inl (ValueError (''Cannot parse owner/repo from URL: '' @ url))
           | None \<Rightarrow> Inl (ValueError (''Cannot parse repository from commit URL: '' @ url)))
      | _ \<Rightarrow> Inl AttributeError)"

definition extract_repo_info :: "(string \<times> json) list \<Rightarrow> py_exc + repo_info" where
  "extract_repo_info payload =
     (if has_key payload ''repository'' then
        (case subscript (JObj payload) ''repository'' of
           Inl e \<Rightarrow> Inl e
         | Inr obj \<Rightarrow> repo_fields obj (dict_get payload ''event_type'' (JStr ''push'')))
      else if has_key payload ''event_source_type'' \<and> has_key payload ''payload'' then
        (let event_source_type = dict_get payload ''event_source_type'' JNull;
             inner = dict_get payload ''payload'' JNull
         in if event_source_type = JStr ''backfill_repo_details'' then
              repo_fields inner (JStr ''repository'')
            else if event_source_type = JStr ''backfill_commit'' then
              (case subscript inner ''url'' of
                 Inl e \<Rightarrow> Inl e
               | Inr commit_url \<Rightarrow> commit_url_info commit_url)
            else Inr (Skipped (''Unknown backfill event type: '' @ py_format event_source_type)))
      else Inr (Skipped ''Event doesn't match any known format''))"

text \<open>
  The second block: \<open>commit_sha\<close>, \<open>commit_timestamp\<close>, \<open>commit_message\<close>. The
  backfill branch subscripts \<open>payload["payload"]\<close> again, whatever shape the first
  block matched.
\<close>

definition extract_commit_info ::
  "(string \<times> json) list \<Rightarrow> py_exc + (json \<times> json \<times> json)" where
  "extract_commit_info payload =
     (if has_key payload ''event_source_type''
         \<and> dict_get payload ''event_source_type'' JNull = JStr ''backfill_commit'' then
        (case subscript2 (JObj payload) ''payload'' ''sha'' of
           Inl e \<Rightarrow> Inl e
         | Inr commit_sha \<Rightarrow>
        (case subscript2 (JObj payload) ''payload'' ''commit'' of
           Inl e \<Rightarrow> Inl e
         | Inr commit_info \<Rightarrow>
        (case subscript2 commit_info ''author'' ''date'' of
           Inl e \<Rightarrow> Inl e
         | Inr commit_timestamp \<Rightarrow>
        (case subscript commit_info ''message'' of
           Inl e \<Rightarrow> Inl e
         | Inr commit_message \<Rightarrow> Inr (commit_sha, commit_timestamp, commit_message)))))
      else if has_key payload ''head_commit'' then
        (let commit_payload = dict_get payload ''head_commit'' (JObj []) in
         case method_get commit_payload ''id'' JNull of
           Inl e \<Rightarrow> Inl e
         | Inr commit_sha \<Rightarrow>
        (case method_get commit_payload ''timestamp'' (JStr '''') of
           Inl e \<Rightarrow> Inl e
         | Inr commit_timestamp \<Rightarrow>
        (case method_get commit_payload ''message'' (JStr '''') of
           Inl e \<Rightarrow> Inl e
         | Inr commit_message \<Rightarrow> Inr (commit_sha, commit_timestamp, commit_message))))
      else Inr (JNull, JStr '''', JStr ''''))"

text \<open>
  The body of the \<open>try\<close>. Each storage call commits on its own, so the database an
  exception leaves behind is the one the last storage call left: the second component
  of the result.
\<close>

definition process_body ::
  "string \<Rightarrow> index_db \<Rightarrow> string \<Rightarrow> (string \<times> json) list \<Rightarrow> (py_exc + outcome) \<times> index_db" where
  "process_body now db kobj_rid payload =
     (case extract_repo_info payload of
        Inl e \<Rightarrow> (Inl e, db)
      | Inr (Skipped msg) \<Rightarrow>
          (Inr \<lparr>status = ''skipped'', message = Text msg,
                details = [(''kobj_rid'', JStr kobj_rid)]\<rparr>, db)
      | Inr (Repo owner repo repo_url event_source) \<Rightarrow>
          (let repo_rid_str = owner_repo_to_repo_rid (py_format owner) (py_format repo) in
           case add_repository now db repo_rid_str repo_url of
             Inl (e, db1) \<Rightarrow> (Inl e, db1)
           | Inr db1 \<Rightarrow>
          (case extract_commit_info payload of
             Inl e \<Rightarrow> (Inl e, db1)
           | Inr (commit_sha, commit_timestamp, commit_message) \<Rightarrow>
          (let event_type_str =
                 (if has_key payload ''event_source_type'' then event_source
                  else dict_get payload ''event_type'' (JStr ''push''));
               stored_sha = (if truthy commit_sha then commit_sha else JNull);
               stored_timestamp = (if truthy commit_sha then commit_timestamp else JStr '''')
           in case summarize_event event_type_str repo_rid_str stored_sha payload of
                Inl e \<Rightarrow> (Inl e, db1)
              | Inr summary \<Rightarrow>
          (case add_event_metadata now db1 kobj_rid repo_rid_str event_type_str
                  stored_timestamp stored_sha summary kobj_rid of
             Inl (e, db2) \<Rightarrow> (Inl e, db2)
           | Inr db2 \<Rightarrow>
               (Inr \<lparr>status = ''success'', message = Text ''Event metadata stored'',
                     details = [(''kobj_rid'', JStr kobj_rid),
                                (''repo_rid'', JStr repo_rid_str),
                                (''commit_sha'', commit_sha)]\<rparr>, db2))))))"

text \<open>
  \<open>process_github_event_bundle\<close>: the \<open>except Exception\<close> turns any exception of the
  body into an \<open>error\<close> result. The function returns its result dict and the
  database it leaves.
\<close>

definition process_github_event_bundle ::
  "string \<Rightarrow> index_db \<Rightarrow> string \<Rightarrow> (string \<times> json) list \<Rightarrow> outcome \<times> index_db" where
  "process_github_event_bundle now db kobj_rid payload =
     (case process_body now db kobj_rid payload of
        (Inl e, db') \<Rightarrow>
          (\<lparr>status = ''error'', message = ExcText e,
            details = [(''kobj_rid'', JStr kobj_rid)]\<rparr>, db')
      | (Inr result, db') \<Rightarrow> (result, db'))"

section \<open>Knowledge objects and the bundle handler (handlers.py)\<close>

text \<open>
  The types the handlers receive from the KOI-net library. An RID has a type and the
  text \<open>str(rid)\<close>. A \<open>Manifest\<close> carries the content hash of a bundle; a \<open>Bundle\<close> is
  a manifest with contents, both required fields, and as an object it is always
  truthy. A \<open>KnowledgeObject\<close> may lack manifest and contents; its property \<open>bundle\<close>
  is \<open>None\<close> unless both are present.
\<close>

datatype rid_type = GitHubEvent | KoiNetNode | KoiNetEdge | OtherRid string

datatype rid = RID (type_of_rid: rid_type) (str_of_rid: string)

record manifest =
  m_rid :: rid
  m_timestamp :: string
  m_sha256_hash :: string

record knowledge_bundle =
  b_manifest :: manifest
  b_contents :: "(string \<times> json) list"

datatype event_type = NEW | UPDATE | FORGET

datatype knowledge_source = Internal | External

record knowledge_object =
  k_rid :: rid
  k_manifest :: "manifest option"
  k_contents :: "(string \<times> json) list option"
  k_normalized_event_type :: "event_type option"
  k_source :: knowledge_source

definition kobj_bundle :: "knowledge_object \<Rightarrow> knowledge_bundle option" where
  "kobj_bundle kobj =
     (case (k_manifest kobj, k_contents kobj) of
        (Some m, Some c) \<Rightarrow> Some \<lparr>b_manifest = m, b_contents = c\<rparr>
      | _ \<Rightarrow> None)"

text \<open>
  What a handler returns: \<open>STOP_CHAIN\<close>, or a knowledge object, or \<open>None\<close> (a bare
  \<open>return\<close>).
\<close>

datatype handler_result = STOP_CHAIN | Return "knowledge_object option"

text \<open>The global \<open>repository_service\<close>: \<open>None\<close> until the server's lifespan sets it.\<close>

record repository_service =
  index_db_path :: string

text \<open>
  \<open>handle_event_bundle\<close>. \<open>proc.cache.read(kobj.rid)\<close> gives the bundle cached for
  the RID, or \<open>None\<close>. The test \<open>prev and prev.manifest and kobj.manifest\<close> holds
  when there is a cached bundle and the incoming object has a manifest (a cached
  bundle always has one). The result of the ingestion is only logged; the handler
  returns the object, with its normalized event type set, on every path but the
  unchanged one. The handler runs the ingestion to completion on an event loop of
  its own, so it is a function of the database.
\<close>

definition handle_event_bundle ::
  "string \<Rightarrow> (rid \<rightharpoonup> knowledge_bundle) \<Rightarrow> repository_service option \<Rightarrow> index_db \<Rightarrow> knowledge_object
     \<Rightarrow> handler_result \<times> index_db" where
  "handle_event_bundle now cache service db kobj =
     (let prev = cache (k_rid kobj);
          is_update = (prev \<noteq> None);
          hash_changed =
            (case (prev, k_manifest kobj) of
               (Some p, Some m) \<Rightarrow> m_sha256_hash (b_manifest p) \<noteq> m_sha256_hash m
             | _ \<Rightarrow> True)
      in if is_update \<and> \<not> hash_changed then (STOP_CHAIN, db)
         else
           (let kobj' = kobj\<lparr>k_normalized_event_type :=
                                Some (if is_update then UPDATE else NEW)\<rparr>
            in case service of
                 None \<Rightarrow> (Return (Some kobj'), db)
               | Some _ \<Rightarrow>
                   (case kobj_bundle kobj' of
                      None \<Rightarrow> (Return (Some kobj'), db)
                    | Some b \<Rightarrow>
                        if b_contents b = [] then (Return (Some kobj'), db)
                        else (Return (Some kobj'),
                              snd (process_github_event_bundle now db
                                     (str_of_rid (k_rid kobj)) (b_contents b))))))"

text \<open>
  One delivery of a bundle through the KOI-net pipeline that calls the handler. The
  pipeline is the library's, not this repository's: after the bundle handlers, an
  object that was not stopped and whose normalized event type is \<open>NEW\<close> or \<open>UPDATE\<close>
  is written to the cache (\<open>cache.write(kobj.bundle)\<close>). This is the write the
  handler's comment "Still return kobj to allow caching" relies on, and the entry
  the next \<open>proc.cache.read\<close> finds.
\<close>

definition deliver_bundle ::
  "string \<Rightarrow> (rid \<rightharpoonup> knowledge_bundle) \<Rightarrow> repository_service option \<Rightarrow> index_db \<Rightarrow> knowledge_object
     \<Rightarrow> handler_result \<times> (rid \<rightharpoonup> knowledge_bundle) \<times> index_db" where
  "deliver_bundle now cache service db kobj =
     (case handle_event_bundle now cache service db kobj of
        (Return (Some k), db') \<Rightarrow>
          (case (k_normalized_event_type k, kobj_bundle k) of
             (Some NEW, Some b) \<Rightarrow> (Return (Some k), cache(k_rid k \<mapsto> b), db')
           | (Some UPDATE, Some b) \<Rightarrow> (Return (Some k), cache(k_rid k \<mapsto> b), db')
           | _ \<Rightarrow> (Return (Some k), cache, db'))
      | (r, db') \<Rightarrow> (r, cache, db'))"

section \<open>Peer discovery and catch-up (handlers.py)\<close>

text \<open>
  \<open>handle_network_discovery\<close> acts on the node through calls into the KOI-net
  library. Each call made is an \<open>action\<close>, in the order made; what the library
  answers (the parsed profile, the peer's answers, an exception) is the environment
  \<open>peer_env\<close>.
\<close>

record node_profile =
  provides_event :: "rid_type list"
  provides_state :: "rid_type list"

datatype action =
    HandleEdgeBundle rid rid
  | FetchRids rid
  | FetchBundles rid "rid list"
  | HandleBundle knowledge_bundle

text \<open>
  \<open>HandleEdgeBundle source target\<close> is \<open>proc.handle(bundle=edge_bundle)\<close> for the
  \<open>WEBHOOK\<close> edge over \<open>GitHubEvent\<close> from \<open>source\<close> to \<open>target\<close>; \<open>FetchRids peer\<close>
  and \<open>FetchBundles peer rids\<close> are the two requests, both for \<open>GitHubEvent\<close>;
  \<open>HandleBundle b\<close> is \<open>proc.handle(bundle=b, source=External)\<close>.
  \<open>fetch_rids\<close> answers with the payload's \<open>rids\<close>, or \<open>None\<close> for a payload that is
  not truthy; \<open>proc_handle\<close> gives the exception a call of \<open>proc.handle\<close> raises, if
  any.
\<close>

record peer_env =
  validate_contents :: "(string \<times> json) list \<Rightarrow> py_exc + node_profile"
  fetch_rids :: "rid \<Rightarrow> py_exc + rid list option"
  fetch_bundles :: "rid \<Rightarrow> rid list \<Rightarrow> py_exc + knowledge_bundle list"
  proc_handle :: "action \<Rightarrow> py_exc option"

text \<open>The \<open>for\<close> loop over the fetched bundles: an exception ends it.\<close>

fun handle_all :: "peer_env \<Rightarrow> knowledge_bundle list \<Rightarrow> action list" where
  "handle_all env [] = []"
| "handle_all env (b # bs) =
     HandleBundle b #
       (case proc_handle env (HandleBundle b) of
          Some e \<Rightarrow> []
        | None \<Rightarrow> handle_all env bs)"

text \<open>The inner \<open>try\<close>: the cold-start catch-up. Its \<open>except\<close> only logs.\<close>

definition catch_up :: "peer_env \<Rightarrow> rid \<Rightarrow> action list" where
  "catch_up env peer =
     FetchRids peer #
       (case fetch_rids env peer of
          Inl e \<Rightarrow> []
        | Inr None \<Rightarrow> []
        | Inr (Some rids) \<Rightarrow>
            if rids = [] then []
            else FetchBundles peer rids #
                   (case fetch_bundles env peer rids of
                      Inl e \<Rightarrow> []
                    | Inr bundles \<Rightarrow> handle_all env bundles))"

text \<open>
  \<open>handle_network_discovery\<close>, with \<open>self\<close> for \<open>proc.identity.rid\<close>. A bare
  \<open>return\<close> gives \<open>Return None\<close>; the outer \<open>except\<close> logs and falls through to
  \<open>return kobj\<close>.
\<close>

definition handle_network_discovery ::
  "peer_env \<Rightarrow> rid \<Rightarrow> knowledge_object \<Rightarrow> handler_result \<times> action list" where
  "handle_network_discovery env self kobj =
     (if k_normalized_event_type kobj \<noteq> Some NEW then (Return None, [])
      else if k_source kobj \<noteq> External then (Return None, [])
      else
        (case kobj_bundle kobj of
           None \<Rightarrow> (Return None, [])
         | Some b \<Rightarrow>
             (case validate_contents env (b_contents b) of
                Inl e \<Rightarrow> (Return (Some kobj), [])
              | Inr profile \<Rightarrow>
                  if GitHubEvent \<notin> set (provides_event profile) then (Return None, [])
                  else if type_of_rid (k_rid kobj) = KoiNetNode then
                    (case proc_handle env (HandleEdgeBundle self (k_rid kobj)) of
                       Some e \<Rightarrow>
                         (Return (Some kobj), [HandleEdgeBundle self (k_rid kobj)])
                     | None \<Rightarrow>
                         (Return (Some kobj),
                          HandleEdgeBundle self (k_rid kobj) # catch_up env (k_rid kobj)))
                  else (Return (Some kobj), catch_up env (k_rid kobj)))))"

section \<open>Repository directories and lock keys (utils.py, cache\_manager.py)\<close>

text \<open>
  \<open>repo_rid_to_dirname\<close>: the text after the prefix, every \<open>/\<close> replaced by \<open>__\<close>,
  with \<open>.git\<close> appended.
\<close>

definition repo_rid_to_dirname :: "string \<Rightarrow> py_exc + string" where
  "repo_rid_to_dirname repo_rid =
     (if \<not> startswith repo_rid rid_prefix then Inl (invalid_rid repo_rid)
      else case split_once rid_prefix repo_rid of
             [_, owner_repo] \<Rightarrow> Inr (replace_char CHR ''/'' ''__'' owner_repo @ ''.git'')
           | _ \<Rightarrow> Inl IndexError)"

subsection \<open>\<open>os.path\<close> on POSIX\<close>

text \<open>
  \<open>os.path.isabs\<close>, \<open>os.path.join\<close> of two parts, \<open>os.path.normpath\<close> and
  \<open>os.path.abspath\<close>, as \<open>posixpath\<close> defines them. \<open>normpath\<close> keeps one or two
  leading slashes (three or more count as one), drops empty and \<open>.\<close> components, and
  lets a \<open>..\<close> remove the component before it; \<open>norm_step\<close> is the body of its loop
  over the components, \<open>new_comps\<close> being the list built so far. \<open>abspath\<close> reads the
  working directory, the parameter \<open>cwd\<close> here.
\<close>

definition isabs :: "string \<Rightarrow> bool" where
  "isabs s = startswith s ''/''"

definition path_join :: "string \<Rightarrow> string \<Rightarrow> string" where
  "path_join a b =
     (if startswith b ''/'' then b
      else if a = [] \<or> last a = CHR ''/'' then a @ b
      else a @ ''/'' @ b)"

definition initial_slashes :: "string \<Rightarrow> nat" where
  "initial_slashes path =
     (if \<not> startswith path ''/'' then 0
      else if startswith path ''//'' \<and> \<not> startswith path ''///'' then 2
      else 1)"

definition norm_step :: "nat \<Rightarrow> string list \<Rightarrow> string \<Rightarrow> string list" where
  "norm_step slashes new_comps part =
     (if part = [] \<or> part = ''.'' then new_comps
      else if part \<noteq> ''..'' \<or> (slashes = 0 \<and> new_comps = [])
              \<or> (new_comps \<noteq> [] \<and> last new_comps = ''..'')
        then new_comps @ [part]
      else if new_comps \<noteq> [] then butlast new_comps
      else new_comps)"

definition normpath :: "string \<Rightarrow> string" where
  "normpath path =
     (if path = [] then ''.''
      else
        (let slashes = initial_slashes path;
             comps = foldl (norm_step slashes) [] (split_char CHR ''/'' path);
             p = replicate slashes CHR ''/'' @ py_join ''/'' comps
         in if p = [] then ''.'' else p))"

definition abspath :: "string \<Rightarrow> string \<Rightarrow> string" where
  "abspath cwd path =
     (if \<not> isabs path then normpath (path_join cwd path) else normpath path)"

subsection \<open>The directory of a repository and the key of its lock\<close>

text \<open>
  \<open>get_repo_dir\<close> (cache\_manager.py): the prefix test, the directory name, and the
  absolute normalized path of the name under \<open>base_path\<close>.
\<close>

definition get_repo_dir :: "string \<Rightarrow> string \<Rightarrow> string \<Rightarrow> py_exc + string" where
  "get_repo_dir cwd base_path repo_rid =
     (if \<not> startswith repo_rid rid_prefix then Inl (invalid_rid repo_rid)
      else case repo_rid_to_dirname repo_rid of
             Inl e \<Rightarrow> Inl e
           | Inr dir_name \<Rightarrow> Inr (abspath cwd (normpath (path_join base_path dir_name))))"

text \<open>
  The key under which \<open>with_repo_lock\<close> and \<open>get_repo_lock\<close> look a lock up:
  \<open>os.path.abspath(os.path.normpath(repo_dir))\<close>.
\<close>

definition lock_key :: "string \<Rightarrow> string \<Rightarrow> string" where
  "lock_key cwd repo_dir = abspath cwd (normpath repo_dir)"

subsection \<open>Normal forms of component lists\<close>

text \<open>
  Predicates used to state what \<open>normpath\<close> returns: a \<open>name\<close> is a component that
  is neither empty nor \<open>.\<close> nor \<open>..\<close>; the components of a normalized relative path
  are some \<open>..\<close> followed by names only.
\<close>

definition is_name :: "string \<Rightarrow> bool" where
  "is_name p = (p \<noteq> [] \<and> p \<noteq> ''.'' \<and> p \<noteq> ''..'')"

fun relclean :: "string list \<Rightarrow> bool" where
  "relclean [] = True"
| "relclean (x # xs) = (if x = ''..'' then relclean xs else list_all is_name (x # xs))"

section \<open>The per-repository lock (cache\_manager.py)\<close>

text \<open>
  A coroutine, as the event loop sees it. Resumed on the shared store, it runs to its
  next suspension point, leaving the store changed and the rest of itself, or it runs
  to its end, returning a value or raising. The first function is what it does when
  it is resumed, the second what it does when \<open>CancelledError\<close> is thrown into it at
  its suspension point (it may end with that exception, or catch it and go on).
\<close>

datatype ('s, 'a) coro =
  Coro "'s \<Rightarrow> 's \<times> (('s, 'a) coro + (py_exc + 'a))"
       "'s \<Rightarrow> 's \<times> (('s, 'a) coro + (py_exc + 'a))"

text \<open>
  The future a call waits on inside \<open>Lock.acquire\<close>, with the state of its task:
  \<open>Pending\<close>; \<open>Woken\<close> (\<open>set_result(True)\<close> was called on it, the task has not run
  yet); \<open>Cancelled\<close> (the task was cancelled while the future was pending, which
  cancels the future; the task has not run yet); \<open>Woken_cancelled\<close> (the task was
  cancelled after the future got its result: the future stays done and not cancelled,
  and the task will find \<open>CancelledError\<close> when it runs).
\<close>

datatype wait = Pending | Woken | Cancelled | Woken_cancelled

text \<open>
  A call \<open>with_repo_lock(repo_dir, coro)\<close>, each with the task that runs it. \<open>Start\<close>:
  called, nothing done yet. \<open>Waiting\<close>: suspended in \<open>await fut\<close> of \<open>lock.acquire()\<close>.
  \<open>Holding\<close>: inside \<open>async with lock\<close>, suspended where \<open>coro\<close> is. \<open>Finished\<close>:
  returned or raised. The string of \<open>Waiting\<close> and \<open>Holding\<close> is the key (the
  normalized absolute path) and the number is the lock object the call took from the
  registry. The flag of \<open>Start\<close> and \<open>Holding\<close> says that the task was cancelled since
  it last ran.
\<close>

datatype ('s, 'a) task =
    Start bool string "('s, 'a) coro"
  | Waiting string nat wait "('s, 'a) coro"
  | Holding bool string nat "('s, 'a) coro"
  | Finished "py_exc + 'a"

text \<open>
  The process: the module-level registry \<open>repo_locks\<close> (key to lock object); the lock
  objects, numbered in the order of their creation, with their attributes \<open>_locked\<close>
  and \<open>_waiters\<close> (the tasks whose futures are in the deque, first in first);
  \<open>created\<close>, the number of lock objects made so far; the store the coroutines work
  on; and the calls, by number. Lock objects that are not made yet are unlocked and
  have no waiters.
\<close>

record ('s, 'a) node =
  repo_locks :: "string \<rightharpoonup> nat"
  locked :: "nat \<Rightarrow> bool"
  waiters :: "nat \<Rightarrow> nat list"
  created :: nat
  store :: 's
  tasks :: "nat \<Rightarrow> ('s, 'a) task"

text \<open>
  \<open>repo_locks.setdefault(repo_dir, asyncio.Lock())\<close>: the lock registered for the
  key, or a new lock, registered now.
\<close>

definition setdefault_lock :: "string \<Rightarrow> ('s, 'a) node \<Rightarrow> nat \<times> ('s, 'a) node" where
  "setdefault_lock k s =
     (case repo_locks s k of
        Some l \<Rightarrow> (l, s)
      | None \<Rightarrow> (created s, s\<lparr>repo_locks := (repo_locks s)(k \<mapsto> created s),
                               created := Suc (created s)\<rparr>))"

text \<open>\<open>get_repo_lock\<close> and \<open>clear_locks\<close>. \<open>cwd\<close> is the working directory.\<close>

definition get_repo_lock :: "string \<Rightarrow> string \<Rightarrow> ('s, 'a) node \<Rightarrow> nat \<times> ('s, 'a) node" where
  "get_repo_lock cwd repo_dir s = setdefault_lock (lock_key cwd repo_dir) s"

definition clear_locks :: "('s, 'a) node \<Rightarrow> ('s, 'a) node" where
  "clear_locks s = s\<lparr>repo_locks := Map.empty\<rparr>"

text \<open>\<open>w.cancelled()\<close> for the future of a task in the deque.\<close>

definition is_cancelled :: "('s, 'a) task \<Rightarrow> bool" where
  "is_cancelled t = (case t of Waiting k l Cancelled c \<Rightarrow> True | _ \<Rightarrow> False)"

text \<open>
  \<open>Lock._wake_up_first\<close>: the first future of the deque gets its result unless it is
  done already.
\<close>

definition wake_up_first :: "nat \<Rightarrow> ('s, 'a) node \<Rightarrow> ('s, 'a) node" where
  "wake_up_first l s =
     (case waiters s l of
        [] \<Rightarrow> s
      | h # rest \<Rightarrow>
          (case tasks s h of
             Waiting k l' Pending c \<Rightarrow> s\<lparr>tasks := (tasks s)(h := Waiting k l' Woken c)\<rparr>
           | _ \<Rightarrow> s))"

text \<open>\<open>Lock.release\<close>: it raises when the lock is not locked.\<close>

definition release :: "nat \<Rightarrow> ('s, 'a) node \<Rightarrow> py_exc option \<times> ('s, 'a) node" where
  "release l s =
     (if locked s l then (None, wake_up_first l (s\<lparr>locked := (locked s)(l := False)\<rparr>))
      else (Some (RuntimeError ''Lock is not acquired.''), s))"

text \<open>
  Inside \<open>async with lock\<close>: \<open>return await coro\<close>. The coroutine runs one segment
  (\<open>seg\<close>: resumed, or with the cancellation thrown in). When it suspends, the call
  stays inside. When it returns or raises, \<open>__aexit__\<close> releases the lock, and the
  value or the exception leaves \<open>with_repo_lock\<close> as it is (\<open>except Exception\<close> logs
  and raises again, \<open>finally\<close> logs); an exception of \<open>release\<close> would take its place.
\<close>

definition await_coro ::
  "nat \<Rightarrow> string \<Rightarrow> nat \<Rightarrow> ('s \<Rightarrow> 's \<times> (('s, 'a) coro + (py_exc + 'a))) \<Rightarrow> ('s, 'a) node
     \<Rightarrow> ('s, 'a) node" where
  "await_coro i k l seg s =
     (case seg (store s) of
        (st, Inl c') \<Rightarrow> s\<lparr>store := st, tasks := (tasks s)(i := Holding False k l c')\<rparr>
      | (st, Inr r) \<Rightarrow>
          (case release l (s\<lparr>store := st\<rparr>) of
             (None, s') \<Rightarrow> s'\<lparr>tasks := (tasks s')(i := Finished r)\<rparr>
           | (Some e, s') \<Rightarrow> s'\<lparr>tasks := (tasks s')(i := Finished (Inl e))\<rparr>))"

text \<open>
  The event loop runs task \<open>i\<close> until it suspends again or ends.

  A call at its start that was cancelled ends with \<open>CancelledError\<close> before its first
  line. Otherwise it computes the key, takes the lock object from the registry and
  enters \<open>Lock.acquire\<close>: when the lock is unlocked and every future in the deque is
  cancelled, it locks and goes on into the body; if not, it appends its future to the
  deque and suspends.

  A waiting call whose future is pending is not run. One whose future has its result
  removes the future from the deque, locks and goes on into the body. One that finds
  \<open>CancelledError\<close> removes its future, wakes the first waiter when the lock is not
  locked, and ends with \<open>CancelledError\<close> (which \<open>except Exception\<close> does not
  catch); it never entered \<open>async with\<close>.

  A call inside the lock runs the next segment of its coroutine.
\<close>

definition run_task :: "string \<Rightarrow> nat \<Rightarrow> ('s, 'a) node \<Rightarrow> ('s, 'a) node" where
  "run_task cwd i s =
     (case tasks s i of
        Start cancelled repo_dir (Coro f g) \<Rightarrow>
          if cancelled then s\<lparr>tasks := (tasks s)(i := Finished (Inl CancelledError))\<rparr>
          else
            (case get_repo_lock cwd repo_dir s of
               (l, s1) \<Rightarrow>
                 let k = lock_key cwd repo_dir in
                 if \<not> locked s1 l \<and> list_all (\<lambda>j. is_cancelled (tasks s1 j)) (waiters s1 l)
                 then await_coro i k l f
                        (s1\<lparr>locked := (locked s1)(l := True),
                            tasks := (tasks s1)(i := Holding False k l (Coro f g))\<rparr>)
                 else s1\<lparr>waiters := (waiters s1)(l := waiters s1 l @ [i]),
                         tasks := (tasks s1)(i := Waiting k l Pending (Coro f g))\<rparr>)
      | Waiting k l w (Coro f g) \<Rightarrow>
          (case w of
             Pending \<Rightarrow> s
           | Woken \<Rightarrow>
               await_coro i k l f
                 (s\<lparr>locked := (locked s)(l := True),
                    waiters := (waiters s)(l := remove1 i (waiters s l)),
                    tasks := (tasks s)(i := Holding False k l (Coro f g))\<rparr>)
           | _ \<Rightarrow>
               (let s1 = s\<lparr>waiters := (waiters s)(l := remove1 i (waiters s l)),
                           tasks := (tasks s)(i := Finished (Inl CancelledError))\<rparr>
                in if locked s1 l then s1 else wake_up_first l s1))
      | Holding cancelled k l (Coro f g) \<Rightarrow> await_coro i k l (if cancelled then g else f) s
      | Finished r \<Rightarrow> s)"

text \<open>
  \<open>task.cancel()\<close> on the task of call \<open>i\<close>: a pending future the task waits on is
  cancelled; otherwise the request is kept for the next time the task runs.
\<close>

definition cancel_task :: "nat \<Rightarrow> ('s, 'a) node \<Rightarrow> ('s, 'a) node" where
  "cancel_task i s =
     (case tasks s i of
        Start cancelled repo_dir c \<Rightarrow> s\<lparr>tasks := (tasks s)(i := Start True repo_dir c)\<rparr>
      | Waiting k l w c \<Rightarrow>
          s\<lparr>tasks := (tasks s)(i := Waiting k l
               (case w of Pending \<Rightarrow> Cancelled | Woken \<Rightarrow> Woken_cancelled | _ \<Rightarrow> w) c)\<rparr>
      | Holding cancelled k l c \<Rightarrow> s\<lparr>tasks := (tasks s)(i := Holding True k l c)\<rparr>
      | Finished r \<Rightarrow> s)"

text \<open>
  What happens in the process, one thing at a time: the event loop runs a task,
  somebody cancels a task, somebody calls \<open>get_repo_lock\<close> (and leaves the lock it
  gets alone), somebody calls \<open>clear_locks\<close>. All calls run on one event loop.
\<close>

datatype event = Run nat | Cancel nat | Get_repo_lock string | Clear_locks

fun step :: "string \<Rightarrow> ('s, 'a) node \<Rightarrow> event \<Rightarrow> ('s, 'a) node" where
  "step cwd s (Run i) = run_task cwd i s"
| "step cwd s (Cancel i) = cancel_task i s"
| "step cwd s (Get_repo_lock repo_dir) = snd (get_repo_lock cwd repo_dir s)"
| "step cwd s Clear_locks = clear_locks s"

definition exec :: "string \<Rightarrow> event list \<Rightarrow> ('s, 'a) node \<Rightarrow> ('s, 'a) node" where
  "exec cwd evs s = foldl (step cwd) s evs"

text \<open>
  The process at its start: the registry is empty (\<open>repo_locks = {}\<close>), no lock object
  is made, and call \<open>i\<close> is \<open>with_repo_lock(repo_dir, coro)\<close> for the pair \<open>calls i\<close>.
\<close>

definition initial :: "'s \<Rightarrow> (nat \<Rightarrow> string \<times> ('s, 'a) coro) \<Rightarrow> ('s, 'a) node" where
  "initial st calls =
     \<lparr>repo_locks = Map.empty, locked = (\<lambda>l. False), waiters = (\<lambda>l. []), created = 0,
      store = st, tasks = (\<lambda>i. Start False (fst (calls i)) (snd (calls i)))\<rparr>"

text \<open>
  Reading a call: the key and the lock it is inside of; the lock it waits for; the
  result it ended with; and the segment of its coroutine that runs when the task
  runs next and gets into or is inside the lock.
\<close>

definition inside :: "('s, 'a) task \<Rightarrow> (string \<times> nat) option" where
  "inside t = (case t of Holding cancelled k l c \<Rightarrow> Some (k, l) | _ \<Rightarrow> None)"

definition waiting_for :: "('s, 'a) task \<Rightarrow> (string \<times> nat) option" where
  "waiting_for t = (case t of Waiting k l w c \<Rightarrow> Some (k, l) | _ \<Rightarrow> None)"

definition result_of :: "('s, 'a) task \<Rightarrow> (py_exc + 'a) option" where
  "result_of t = (case t of Finished r \<Rightarrow> Some r | _ \<Rightarrow> None)"

definition next_segment ::
  "('s, 'a) task \<Rightarrow> ('s \<Rightarrow> 's \<times> (('s, 'a) coro + (py_exc + 'a))) option" where
  "next_segment t =
     (case t of
        Start cancelled repo_dir (Coro f g) \<Rightarrow> if cancelled then None else Some f
      | Waiting k l w (Coro f g) \<Rightarrow> if w = Woken then Some f else None
      | Holding cancelled k l (Coro f g) \<Rightarrow> Some (if cancelled then g else f)
      | Finished r \<Rightarrow> None)"

text \<open>
  An ingestion on the same process. The handler runs \<open>_process_event_async\<close>, which
  awaits \<open>process_github_event_bundle\<close>; neither calls \<open>with_repo_lock\<close> or
  \<open>get_repo_lock\<close>, and the ingestion has no suspension point: it is one step on
  the index, and the registry, the locks and the calls are not touched.
\<close>

definition run_ingestion ::
  "string \<Rightarrow> string \<Rightarrow> (string \<times> json) list \<Rightarrow> (index_db, 'a) node
     \<Rightarrow> outcome \<times> (index_db, 'a) node" where
  "run_ingestion now kobj_rid payload s =
     (case process_github_event_bundle now (store s) kobj_rid payload of
        (result, db) \<Rightarrow> (result, s\<lparr>store := db\<rparr>))"

text \<open>
  What holds of locks, waiters and calls in every state of the process. A call
  inside a lock holds a locked lock; a lock has at most one call inside; a locked lock
  has a call inside. The deque of a lock holds, once each, the calls that wait for it.
  A waiter that is woken is the first of its deque, and its lock is unlocked.
\<close>

definition lock_inv :: "('s, 'a) node \<Rightarrow> bool" where
  "lock_inv s =
     ((\<forall>i b k l c. tasks s i = Holding b k l c \<longrightarrow> locked s l) \<and>
      (\<forall>i j b k l c b' k' c'.
         tasks s i = Holding b k l c \<and> tasks s j = Holding b' k' l c' \<longrightarrow> i = j) \<and>
      (\<forall>l. locked s l \<longrightarrow> (\<exists>i b k c. tasks s i = Holding b k l c)) \<and>
      (\<forall>l. distinct (waiters s l)) \<and>
      (\<forall>l i. i \<in> set (waiters s l) \<longleftrightarrow> (\<exists>k w c. tasks s i = Waiting k l w c)) \<and>
      (\<forall>i k l w c. tasks s i = Waiting k l w c \<and> (w = Woken \<or> w = Woken_cancelled) \<longrightarrow>
         \<not> locked s l \<and> (\<exists>rest. waiters s l = i # rest)))"

text \<open>
  As long as \<open>clear_locks\<close> is not called, the lock of a call is the one registered
  for its key.
\<close>

definition registered :: "('s, 'a) node \<Rightarrow> bool" where
  "registered s =
     (\<forall>i k l. inside (tasks s i) = Some (k, l) \<or> waiting_for (tasks s i) = Some (k, l) \<longrightarrow>
        repo_locks s k = Some l)"

section \<open>Facts about splitting\<close>

lemma startswith_append [simp]: "startswith (p @ s) p"
  by (simp add: startswith_def)

lemma find_sep_prefix: "sep \<noteq> [] \<Longrightarrow> find_sep sep (sep @ s) = Some ([], s)"
  by (cases sep) (simp_all add: startswith_def)

lemma find_sep_char:
  "c \<notin> set a \<Longrightarrow> find_sep [c] (a @ c # b) = Some (a, b)"
  by (induction a) (auto simp add: startswith_def)

lemma find_sep_char_none:
  "c \<notin> set s \<Longrightarrow> find_sep [c] s = None"
  by (induction s) (auto simp add: startswith_def)

lemma find_sep_char_some:
  "c \<in> set s \<Longrightarrow> find_sep [c] s = Some (takeWhile (\<lambda>x. x \<noteq> c) s, tl (dropWhile (\<lambda>x. x \<noteq> c) s))"
  by (induction s) (auto simp add: startswith_def)

lemma startswith_iff: "startswith s p \<longleftrightarrow> (\<exists>t. s = p @ t)"
  unfolding startswith_def
  by (metis append_eq_conv_conj append_take_drop_id)

lemma split_once_slash:
  "split_once ''/'' s = (if CHR ''/'' \<in> set s
      then [takeWhile (\<lambda>x. x \<noteq> CHR ''/'') s, tl (dropWhile (\<lambda>x. x \<noteq> CHR ''/'') s)]
      else [s])"
  by (simp add: split_once_def find_sep_char_some find_sep_char_none)

lemma split_once_slash_cut:
  "CHR ''/'' \<notin> set a \<Longrightarrow> split_once ''/'' (a @ ''/'' @ b) = [a, b]"
  by (simp add: split_once_def find_sep_char)

lemma slash_cut_exists:
  assumes "CHR ''/'' \<in> set s"
  shows "s = takeWhile (\<lambda>x. x \<noteq> CHR ''/'') s @ ''/'' @ tl (dropWhile (\<lambda>x. x \<noteq> CHR ''/'') s)"
    and "CHR ''/'' \<notin> set (takeWhile (\<lambda>x. x \<noteq> CHR ''/'') s)"
proof -
  let ?d = "dropWhile (\<lambda>x. x \<noteq> CHR ''/'') s"
  from assms have "?d \<noteq> []" by (simp add: dropWhile_eq_Nil_conv)
  moreover have "?d \<noteq> [] \<Longrightarrow> hd ?d = CHR ''/''"
    using hd_dropWhile [of "\<lambda>x. x \<noteq> CHR ''/''" s] by simp
  ultimately have "?d = CHR ''/'' # tl ?d" by (cases ?d) auto
  then show "s = takeWhile (\<lambda>x. x \<noteq> CHR ''/'') s @ ''/'' @ tl ?d"
    using takeWhile_dropWhile_id [of "\<lambda>x. x \<noteq> CHR ''/''" s] by simp
  show "CHR ''/'' \<notin> set (takeWhile (\<lambda>x. x \<noteq> CHR ''/'') s)"
    by (auto dest: set_takeWhileD)
qed

section \<open>The identifier codec: decoding and the round trip\<close>

lemma rid_prefix_nonempty: "rid_prefix \<noteq> []"
  by (simp add: rid_prefix_def)

lemma split_once_prefix: "split_once rid_prefix (rid_prefix @ s) = [[], s]"
  by (simp add: split_once_def find_sep_prefix [OF rid_prefix_nonempty])

lemma repo_rid_to_owner_repo_prefixed:
  "repo_rid_to_owner_repo (rid_prefix @ s) =
     (if CHR ''/'' \<in> set s
      then Inr (takeWhile (\<lambda>x. x \<noteq> CHR ''/'') s, tl (dropWhile (\<lambda>x. x \<noteq> CHR ''/'') s))
      else Inl (invalid_rid (rid_prefix @ s)))"
  by (simp add: repo_rid_to_owner_repo_def split_once_prefix split_once_slash)

lemma decode_encode:
  "CHR ''/'' \<notin> set owner \<Longrightarrow>
   repo_rid_to_owner_repo (owner_repo_to_repo_rid owner repo) = Inr (owner, repo)"
  by (simp add: owner_repo_to_repo_rid_def repo_rid_to_owner_repo_def split_once_prefix
      split_once_slash_cut del: append.simps)

lemma decode_success_iff:
  "repo_rid_to_owner_repo rid = Inr (owner, repo) \<longleftrightarrow>
     rid = rid_prefix @ owner @ ''/'' @ repo \<and> CHR ''/'' \<notin> set owner"
proof
  assume r: "repo_rid_to_owner_repo rid = Inr (owner, repo)"
  then have "startswith rid rid_prefix"
    by (auto simp: repo_rid_to_owner_repo_def split: if_splits)
  then obtain s where s: "rid = rid_prefix @ s" by (auto simp: startswith_iff)
  with r have sl: "CHR ''/'' \<in> set s" and o: "owner = takeWhile (\<lambda>x. x \<noteq> CHR ''/'') s"
    and p: "repo = tl (dropWhile (\<lambda>x. x \<noteq> CHR ''/'') s)"
    by (auto simp: repo_rid_to_owner_repo_prefixed split: if_splits)
  from slash_cut_exists [OF sl] s o p
  show "rid = rid_prefix @ owner @ ''/'' @ repo \<and> CHR ''/'' \<notin> set owner" by simp
next
  assume "rid = rid_prefix @ owner @ ''/'' @ repo \<and> CHR ''/'' \<notin> set owner"
  then show "repo_rid_to_owner_repo rid = Inr (owner, repo)"
    using decode_encode [of owner repo] by (simp add: owner_repo_to_repo_rid_def)
qed

lemma decode_failure_iff:
  "repo_rid_to_owner_repo rid = Inl e \<longleftrightarrow>
     e = invalid_rid rid \<and>
     (\<not> startswith rid rid_prefix \<or> CHR ''/'' \<notin> set (drop (length rid_prefix) rid))"
proof (cases "startswith rid rid_prefix")
  case True
  then obtain s where s: "rid = rid_prefix @ s" by (auto simp: startswith_iff)
  show ?thesis unfolding s by (auto simp: repo_rid_to_owner_repo_prefixed)
next
  case False
  then show ?thesis by (auto simp: repo_rid_to_owner_repo_def)
qed

text \<open>
  Claim C6. Decoding the identifier minted from an (owner, repo) pair gives the pair
  back: \<open>repo_rid_to_owner_repo (owner_repo_to_repo_rid owner repo) = (owner, repo)\<close>.
  A valid pair is one whose owner segment holds no \<open>/\<close> (the decoder cuts at the first
  \<open>/\<close>); the pairs with non-empty segments are among them, and no condition on the
  repo segment is needed.
\<close>

theorem identifier_roundtrip:
  "CHR ''/'' \<notin> set owner \<Longrightarrow>
   repo_rid_to_owner_repo (owner_repo_to_repo_rid owner repo) = Inr (owner, repo)"
  by (rule decode_encode)

theorem identifier_roundtrip_witness:
  "CHR ''/'' \<notin> set ''acme'' \<and>
   repo_rid_to_owner_repo (owner_repo_to_repo_rid ''acme'' ''widgets'') =
     Inr (''acme'', ''widgets'')"
  using identifier_roundtrip [of "''acme''" "''widgets''"] by simp

text \<open>
  Claim C7, as the spec states it, asks the decoder to fail when a segment is empty.
  The code has no such check: an identifier with the prefix and a \<open>/\<close> in the
  remainder decodes, here to two empty segments.
\<close>

theorem decode_empty_segments_counterexample:
  "repo_rid_to_owner_repo ''orn:github.repo:/'' = Inr ('''', '''')"
  by (simp add: repo_rid_to_owner_repo_def rid_prefix_def startswith_def split_once_def)

text \<open>
  Claim C7, amended. \<open>repo_rid_to_owner_repo\<close> fails (with the \<open>ValueError\<close> "Invalid
  GitHub repository RID format") exactly when the input lacks the prefix
  \<open>orn:github.repo:\<close> or the remainder holds no \<open>/\<close>; on every other input it returns
  the text before the first \<open>/\<close> of the remainder and the text after it, either of
  which may be empty.
\<close>

theorem decode_fails_exactly:
  "(repo_rid_to_owner_repo rid = Inl e \<longleftrightarrow>
      e = invalid_rid rid \<and>
      (\<not> startswith rid rid_prefix \<or> CHR ''/'' \<notin> set (drop (length rid_prefix) rid))) \<and>
   (repo_rid_to_owner_repo rid = Inr (owner, repo) \<longleftrightarrow>
      rid = rid_prefix @ owner @ ''/'' @ repo \<and> CHR ''/'' \<notin> set owner)"
  using decode_failure_iff decode_success_iff by blast

theorem decode_fails_exactly_witness:
  "repo_rid_to_owner_repo ''orn:github.repo:acme'' = Inl (invalid_rid ''orn:github.repo:acme'') \<and>
   repo_rid_to_owner_repo ''github:acme/widgets'' = Inl (invalid_rid ''github:acme/widgets'') \<and>
   repo_rid_to_owner_repo ''orn:github.repo:acme/widgets/x'' = Inr (''acme'', ''widgets/x'')"
  using decode_fails_exactly [of "''orn:github.repo:acme''" "invalid_rid ''orn:github.repo:acme''"]
    decode_fails_exactly [of "''github:acme/widgets''" "invalid_rid ''github:acme/widgets''"]
    decode_fails_exactly [of "''orn:github.repo:acme/widgets/x''" _ "''acme''" "''widgets/x''"]
  by (simp add: rid_prefix_def startswith_def)

section \<open>Ingestion: the shape of the payload\<close>

lemma index_of_None: "index_of x xs = None \<longleftrightarrow> x \<notin> set xs"
  by (induction xs) auto

lemma index_of_first: "x \<notin> set pre \<Longrightarrow> index_of x (pre @ x # rest) = Some (length pre)"
  by (induction pre) auto

lemma index_of_Some:
  "index_of x xs = Some i \<Longrightarrow> i < length xs \<and> xs ! i = x \<and> x \<notin> set (take i xs)"
proof (induction xs arbitrary: i)
  case Nil then show ?case by simp
next
  case (Cons y ys)
  then show ?case by (cases "x = y") (auto split: if_splits)
qed

lemma index_of_decomp:
  "index_of x xs = Some i \<Longrightarrow> xs = take i xs @ x # drop (Suc i) xs \<and> x \<notin> set (take i xs)"
  using index_of_Some [of x xs i] by (metis id_take_nth_drop)

lemma commit_url_info_found:
  assumes "split_char CHR ''/'' url = pre @ ''repos'' # owner # repo # post" "''repos'' \<notin> set pre"
  shows "commit_url_info (JStr url) =
     Inr (Repo (JStr owner) (JStr repo)
           (JStr (''https://github.com/'' @ owner @ ''/'' @ repo @ ''.git'')) (JStr ''commit''))"
  using assms by (simp add: commit_url_info_def index_of_first nth_append Let_def del: append.simps)

lemma commit_url_info_fails:
  assumes "\<not> (\<exists>pre owner repo post.
             split_char CHR ''/'' url = pre @ ''repos'' # owner # repo # post \<and> ''repos'' \<notin> set pre)"
  shows "\<exists>m. commit_url_info (JStr url) = Inl (ValueError m)"
proof (cases "index_of ''repos'' (split_char CHR ''/'' url)")
  case None
  then show ?thesis by (simp add: commit_url_info_def)
next
  case (Some i)
  let ?xs = "split_char CHR ''/'' url"
  from index_of_decomp [OF Some] have d: "?xs = take i ?xs @ ''repos'' # drop (Suc i) ?xs"
    and n: "''repos'' \<notin> set (take i ?xs)" by simp_all
  have "\<not> length ?xs > i + 2"
  proof
    assume l: "length ?xs > i + 2"
    then have "drop (Suc i) ?xs = ?xs ! (Suc i) # ?xs ! (Suc (Suc i)) # drop (Suc (Suc (Suc i))) ?xs"
      by (simp add: Cons_nth_drop_Suc)
    with d have "?xs = take i ?xs @ ''repos'' # ?xs ! (Suc i) # ?xs ! (Suc (Suc i)) # drop (Suc (Suc (Suc i))) ?xs"
      by simp
    with n assms show False by blast
  qed
  with Some show ?thesis by (simp add: commit_url_info_def Let_def)
qed



lemma process_error_iff:
  "status (fst (process_github_event_bundle now db k p)) = ''error'' \<longleftrightarrow>
     (\<exists>e. fst (process_body now db k p) = Inl e)"
  unfolding process_github_event_bundle_def process_body_def
  by (auto simp: Let_def split: sum.splits repo_info.splits prod.splits)

lemma process_body_extract_fails:
  "extract_repo_info p = Inl e \<Longrightarrow> process_body now db k p = (Inl e, db)"
  by (simp add: process_body_def)


lemma extract_backfill_commit:
  assumes "map_of p ''repository'' = None"
    and "map_of p ''event_source_type'' = Some (JStr ''backfill_commit'')"
    and "map_of p ''payload'' = Some inner"
  shows "extract_repo_info p =
     (case subscript inner ''url'' of Inl e \<Rightarrow> Inl e | Inr u \<Rightarrow> commit_url_info u)"
  using assms by (simp add: extract_repo_info_def has_key_def dict_get_def Let_def)

text \<open>
  Claim C5. For a backfill-commit payload (no top-level \<open>repository\<close>,
  \<open>event_source_type == "backfill_commit"\<close>, a nested \<open>payload\<close> whose \<open>url\<close> is a
  string), the owner and the repo are the two parts that follow the first \<open>repos\<close> part
  of the URL split at \<open>/\<close>; when no \<open>repos\<close> part has two parts after it, the
  ingestion returns an \<open>error\<close> result and the database is as it was.
\<close>

theorem backfill_commit_owner_repo:
  assumes "map_of payload ''repository'' = None"
    and "map_of payload ''event_source_type'' = Some (JStr ''backfill_commit'')"
    and "map_of payload ''payload'' = Some inner"
    and "subscript inner ''url'' = Inr (JStr url)"
  shows "(split_char CHR ''/'' url = pre @ ''repos'' # owner # repo # post \<and> ''repos'' \<notin> set pre \<longrightarrow>
            extract_repo_info payload =
              Inr (Repo (JStr owner) (JStr repo)
                    (JStr (''https://github.com/'' @ owner @ ''/'' @ repo @ ''.git''))
                    (JStr ''commit''))) \<and>
         ((\<nexists>pre owner repo post.
              split_char CHR ''/'' url = pre @ ''repos'' # owner # repo # post \<and> ''repos'' \<notin> set pre) \<longrightarrow>
            status (fst (process_github_event_bundle now db kobj_rid payload)) = ''error'' \<and>
            snd (process_github_event_bundle now db kobj_rid payload) = db)"
proof (intro conjI impI)
  assume "split_char CHR ''/'' url = pre @ ''repos'' # owner # repo # post \<and> ''repos'' \<notin> set pre"
  then show "extract_repo_info payload =
              Inr (Repo (JStr owner) (JStr repo)
                    (JStr (''https://github.com/'' @ owner @ ''/'' @ repo @ ''.git''))
                    (JStr ''commit''))"
    using assms by (simp add: extract_backfill_commit commit_url_info_found del: append.simps)
next
  assume n: "\<nexists>pre owner repo post.
              split_char CHR ''/'' url = pre @ ''repos'' # owner # repo # post \<and> ''repos'' \<notin> set pre"
  from commit_url_info_fails [OF n] obtain m where "commit_url_info (JStr url) = Inl (ValueError m)" ..
  with assms have "extract_repo_info payload = Inl (ValueError m)"
    by (simp add: extract_backfill_commit)
  then have b: "process_body now db kobj_rid payload = (Inl (ValueError m), db)"
    by (rule process_body_extract_fails)
  show "status (fst (process_github_event_bundle now db kobj_rid payload)) = ''error''"
    by (simp add: process_github_event_bundle_def b)
  show "snd (process_github_event_bundle now db kobj_rid payload) = db"
    by (simp add: process_github_event_bundle_def b)
qed

lemma no_two_after_repos:
  "\<nexists>pre owner repo post.
     [''https:'', [], ''api.example.com'', ''repos'', ''acme''] = pre @ ''repos'' # owner # repo # post
       \<and> ''repos'' \<notin> set pre"
  by (auto simp: Cons_eq_append_conv)

theorem backfill_commit_owner_repo_witness:
  "extract_repo_info
     [(''event_source_type'', JStr ''backfill_commit''),
      (''payload'', JObj [(''url'', JStr ''https://api.example.com/repos/acme/widgets/commits/abc123'')])] =
     Inr (Repo (JStr ''acme'') (JStr ''widgets'') (JStr ''https://github.com/acme/widgets.git'')
           (JStr ''commit'')) \<and>
   status (fst (process_github_event_bundle ''2024-01-01 00:00:00'' empty_db ''E1''
     [(''event_source_type'', JStr ''backfill_commit''),
      (''payload'', JObj [(''url'', JStr ''https://api.example.com/repos/acme'')])])) = ''error'' \<and>
   snd (process_github_event_bundle ''2024-01-01 00:00:00'' empty_db ''E1''
     [(''event_source_type'', JStr ''backfill_commit''),
      (''payload'', JObj [(''url'', JStr ''https://api.example.com/repos/acme'')])]) = empty_db"
  using backfill_commit_owner_repo
      [of "[(''event_source_type'', JStr ''backfill_commit''),
            (''payload'', JObj [(''url'', JStr ''https://api.example.com/repos/acme/widgets/commits/abc123'')])]"
          "JObj [(''url'', JStr ''https://api.example.com/repos/acme/widgets/commits/abc123'')]"
          "''https://api.example.com/repos/acme/widgets/commits/abc123''"
          "[''https:'', [], ''api.example.com'']" "''acme''" "''widgets''" "[''commits'', ''abc123'']"]
    backfill_commit_owner_repo
      [of "[(''event_source_type'', JStr ''backfill_commit''),
            (''payload'', JObj [(''url'', JStr ''https://api.example.com/repos/acme'')])]"
          "JObj [(''url'', JStr ''https://api.example.com/repos/acme'')]"
          "''https://api.example.com/repos/acme''" _ _ _ _ "''2024-01-01 00:00:00''" empty_db "''E1''"]
    no_two_after_repos
  by simp

section \<open>Ingestion: what the storage calls leave\<close>


lemma add_event_metadata_Inr:
  assumes "add_event_metadata now db ev rid ty ts sha summ b = Inr db'"
  shows "\<exists>tyv tsv shav. to_sql ty = Inr tyv \<and> to_sql ts = Inr tsv \<and> to_sql sha = Inr shav
           \<and> tyv \<noteq> SNull \<and> tsv \<noteq> SNull \<and> \<not> write_locked db \<and> \<not> write_locked db'
           \<and> events db' = (events db)(ev \<mapsto> \<lparr>e_repo_rid = SText rid, e_event_type = tyv,
                 e_timestamp = tsv, e_commit_sha = shav, e_summary = SText summ,
                 e_bundle_rid = SText b\<rparr>)
           \<and> repositories db' = (case repositories db rid of
                 Some r \<Rightarrow> repositories db
               | None \<Rightarrow> (repositories db)(rid \<mapsto> \<lparr>r_repo_url = SText (''orn:'' @ rid),
                    r_first_indexed = SText now, r_last_updated = SText now\<rparr>))"
  using assms unfolding add_event_metadata_def
  by (auto simp: Let_def split: sum.splits if_splits option.splits)

lemma add_repository_Inr:
  assumes "add_repository now db rid url = Inr db'"
  shows "\<exists>u. to_sql url = Inr u \<and> u \<noteq> SNull \<and> events db' = events db
           \<and> \<not> write_locked db \<and> \<not> write_locked db'
           \<and> repositories db' = (repositories db)(rid \<mapsto>
                (case repositories db rid of
                   Some row \<Rightarrow> row\<lparr>r_last_updated := SText now, r_repo_url := u\<rparr>
                 | None \<Rightarrow> \<lparr>r_repo_url = u, r_first_indexed = SText now,
                              r_last_updated = SText now\<rparr>))"
  using assms unfolding add_repository_def
  by (auto split: sum.splits if_splits option.splits)

text \<open>A storage call that raises leaves the rows as they were.\<close>

lemma add_repository_Inl:
  assumes "add_repository now db rid url = Inl (e, db')"
  shows "repositories db' = repositories db \<and> events db' = events db"
  using assms unfolding add_repository_def
  by (auto split: sum.splits if_splits option.splits)

lemma add_event_metadata_Inl:
  assumes "add_event_metadata now db ev rid ty ts sha summ b = Inl (e, db')"
  shows "repositories db' = repositories db \<and> events db' = events db"
  using assms unfolding add_event_metadata_def
  by (auto simp: Let_def split: sum.splits if_splits option.splits)

lemma add_repository_locked:
  assumes "write_locked db"
  shows "\<exists>e. add_repository now db rid url = Inl (e, db)"
  using assms unfolding add_repository_def by (auto split: sum.splits)

lemma process_body_success:
  assumes "process_body now db k p = (Inr out, db')" and "status out = ''success''"
  obtains owner repo url src db1 sha ts msg summ
  where "extract_repo_info p = Inr (Repo owner repo url src)"
    and "add_repository now db (owner_repo_to_repo_rid (py_format owner) (py_format repo)) url = Inr db1"
    and "extract_commit_info p = Inr (sha, ts, msg)"
    and "add_event_metadata now db1 k (owner_repo_to_repo_rid (py_format owner) (py_format repo))
           (if has_key p ''event_source_type'' then src else dict_get p ''event_type'' (JStr ''push''))
           (if truthy sha then ts else JStr '''') (if truthy sha then sha else JNull) summ k = Inr db'"
    and "details out = [(''kobj_rid'', JStr k),
           (''repo_rid'', JStr (owner_repo_to_repo_rid (py_format owner) (py_format repo))),
           (''commit_sha'', sha)]"
  using assms unfolding process_body_def
  by (auto simp: Let_def split: sum.splits repo_info.splits prod.splits)

text \<open>
  The database an exception of the body leaves: its rows are those before the
  ingestion, or those the repository upsert committed.
\<close>

lemma process_body_error_rows:
  assumes "process_body now db k p = (Inl e, db')"
  shows "(repositories db' = repositories db \<and> events db' = events db) \<or>
         (\<exists>owner repo url src db1.
            extract_repo_info p = Inr (Repo owner repo url src) \<and>
            add_repository now db (owner_repo_to_repo_rid (py_format owner) (py_format repo)) url
              = Inr db1 \<and>
            repositories db' = repositories db1 \<and> events db' = events db1)"
proof (cases "extract_repo_info p")
  case (Inl x)
  with assms show ?thesis by (simp add: process_body_def)
next
  case (Inr info)
  show ?thesis
  proof (cases info)
    case (Skipped m)
    with Inr assms show ?thesis by (simp add: process_body_def)
  next
    case (Repo owner repo url src)
    let ?rid = "owner_repo_to_repo_rid (py_format owner) (py_format repo)"
    show ?thesis
    proof (cases "add_repository now db ?rid url")
      case a: (Inl x)
      obtain e1 d1 where x: "x = (e1, d1)" by (cases x)
      with a Inr Repo assms have "db' = d1" by (simp add: process_body_def Let_def)
      with a x add_repository_Inl [of now db ?rid url e1 d1] show ?thesis by simp
    next
      case a: (Inr db1)
      have "repositories db' = repositories db1 \<and> events db' = events db1"
        using assms Inr Repo a unfolding process_body_def
        by (auto simp: Let_def split: sum.splits prod.splits dest: add_event_metadata_Inl)
      with Inr Repo a show ?thesis by blast
    qed
  qed
qed

lemma process_body_error:
  assumes "process_body now db k p = (Inl e, db')"
  shows "events db' = events db \<and>
         (repositories db' = repositories db \<or>
          (\<exists>rid url db1. add_repository now db rid url = Inr db1 \<and>
             repositories db' = repositories db1))"
  using process_body_error_rows [OF assms] by (auto dest: add_repository_Inr)

text \<open>\<open>no_orphans\<close> is a property of the rows.\<close>

lemma no_orphans_rows:
  assumes "repositories a = repositories b" and "events a = events b"
  shows "no_orphans a = no_orphans b"
  using assms by (simp add: no_orphans_def)


lemma no_orphans_add_event_metadata:
  assumes "no_orphans db" "add_event_metadata now db ev rid ty ts sha summ b = Inr db'"
  shows "no_orphans db'"
proof -
  from add_event_metadata_Inr [OF assms(2)] obtain tyv tsv shav where
    ev: "events db' = (events db)(ev \<mapsto> \<lparr>e_repo_rid = SText rid, e_event_type = tyv,
                 e_timestamp = tsv, e_commit_sha = shav, e_summary = SText summ,
                 e_bundle_rid = SText b\<rparr>)"
    and rp: "repositories db' = (case repositories db rid of
                 Some r \<Rightarrow> repositories db
               | None \<Rightarrow> (repositories db)(rid \<mapsto> \<lparr>r_repo_url = SText (''orn:'' @ rid),
                    r_first_indexed = SText now, r_last_updated = SText now\<rparr>))"
    by blast
  have here: "repositories db' rid \<noteq> None"
    by (simp add: rp split: option.splits)
  have keep: "repositories db r \<noteq> None \<Longrightarrow> repositories db' r \<noteq> None" for r
    by (simp add: rp split: option.splits)
  show ?thesis
    unfolding no_orphans_def
  proof (intro allI impI)
    fix k row assume a: "events db' k = Some row"
    show "\<exists>r. e_repo_rid row = SText r \<and> repositories db' r \<noteq> None"
    proof (cases "k = ev")
      case True
      with a ev have "e_repo_rid row = SText rid" by auto
      with here show ?thesis by blast
    next
      case False
      with a ev have "events db k = Some row" by simp
      with assms(1) obtain r where "e_repo_rid row = SText r" "repositories db r \<noteq> None"
        unfolding no_orphans_def by blast
      then show ?thesis using keep by blast
    qed
  qed
qed

lemma no_orphans_add_repository:
  assumes "no_orphans db" "add_repository now db rid url = Inr db'"
  shows "no_orphans db'"
proof -
  from add_repository_Inr [OF assms(2)] obtain u where
    ev: "events db' = events db"
    and rp: "repositories db' = (repositories db)(rid \<mapsto>
                (case repositories db rid of
                   Some row \<Rightarrow> row\<lparr>r_last_updated := SText now, r_repo_url := u\<rparr>
                 | None \<Rightarrow> \<lparr>r_repo_url = u, r_first_indexed = SText now,
                              r_last_updated = SText now\<rparr>))"
    by blast
  have keep: "repositories db r \<noteq> None \<Longrightarrow> repositories db' r \<noteq> None" for r
    by (simp add: rp)
  show ?thesis using assms(1) keep unfolding no_orphans_def ev by blast
qed

lemma update_events: "events (update_repository_latest_commit db rid ts) = events db"
  by (simp add: update_repository_latest_commit_def split: sum.splits option.splits)

lemma update_repositories:
  "repositories db r \<noteq> None \<Longrightarrow> repositories (update_repository_latest_commit db rid ts) r \<noteq> None"
  by (simp add: update_repository_latest_commit_def split: sum.splits option.splits)

lemma no_orphans_update:
  assumes "no_orphans db"
  shows "no_orphans (update_repository_latest_commit db rid ts)"
  unfolding no_orphans_def update_events
proof (intro allI impI)
  fix k row assume "events db k = Some row"
  with assms obtain r where "e_repo_rid row = SText r" "repositories db r \<noteq> None"
    unfolding no_orphans_def by blast
  then show "\<exists>r. e_repo_rid row = SText r
      \<and> repositories (update_repository_latest_commit db rid ts) r \<noteq> None"
    using update_repositories by blast
qed

lemma prune_events:
  "events (db_left (prune_old_data older db)) k = Some row \<Longrightarrow> events db k = Some row"
  by (simp add: prune_old_data_def db_left_def split: option.splits if_splits)

lemma prune_repositories: "repositories (db_left (prune_old_data older db)) = repositories db"
  by (simp add: prune_old_data_def db_left_def)

lemma no_orphans_prune:
  assumes "no_orphans db"
  shows "no_orphans (db_left (prune_old_data older db))"
  unfolding no_orphans_def prune_repositories
proof (intro allI impI)
  fix k row assume "events (db_left (prune_old_data older db)) k = Some row"
  then have "events db k = Some row" by (rule prune_events)
  with assms show "\<exists>r. e_repo_rid row = SText r \<and> repositories db r \<noteq> None"
    unfolding no_orphans_def by blast
qed


lemma no_orphans_empty: "no_orphans empty_db"
  by (simp add: no_orphans_def empty_db_def)

lemma process_body_not_success:
  assumes "process_body now db k p = (Inr out, db')" and "status out \<noteq> ''success''"
  shows "db' = db"
  using assms unfolding process_body_def
  by (auto simp: Let_def split: sum.splits repo_info.splits prod.splits)

lemma no_orphans_process_body:
  assumes "no_orphans db" and pb: "process_body now db k p = (r, db')"
  shows "no_orphans db'"
proof (cases r)
  case (Inl e)
  with pb have "process_body now db k p = (Inl e, db')" by simp
  from process_body_error_rows [OF this] show ?thesis
  proof
    assume "repositories db' = repositories db \<and> events db' = events db"
    with assms(1) show ?thesis using no_orphans_rows [of db' db] by simp
  next
    assume "\<exists>owner repo url src db1.
            extract_repo_info p = Inr (Repo owner repo url src) \<and>
            add_repository now db (owner_repo_to_repo_rid (py_format owner) (py_format repo)) url
              = Inr db1 \<and>
            repositories db' = repositories db1 \<and> events db' = events db1"
    then obtain rid url db1 where a: "add_repository now db rid url = Inr db1"
      and r: "repositories db' = repositories db1" "events db' = events db1" by blast
    from assms(1) a have "no_orphans db1" by (rule no_orphans_add_repository)
    with r show ?thesis using no_orphans_rows [of db' db1] by simp
  qed
next
  case (Inr out)
  with pb have pb': "process_body now db k p = (Inr out, db')" by simp
  show ?thesis
  proof (cases "status out = ''success''")
    case True
    from pb' True show ?thesis
    proof (rule process_body_success)
      fix owner repo url src db1 sha ts msg summ
      assume 1: "add_repository now db (owner_repo_to_repo_rid (py_format owner) (py_format repo)) url = Inr db1"
        and 2: "add_event_metadata now db1 k (owner_repo_to_repo_rid (py_format owner) (py_format repo))
           (if has_key p ''event_source_type'' then src else dict_get p ''event_type'' (JStr ''push''))
           (if truthy sha then ts else JStr []) (if truthy sha then sha else JNull) summ k = Inr db'"
      from assms(1) 1 have "no_orphans db1" by (rule no_orphans_add_repository)
      from this 2 show ?thesis by (rule no_orphans_add_event_metadata)
    qed
  next
    case False
    with pb' have "db' = db" by (rule process_body_not_success)
    with assms(1) show ?thesis by simp
  qed
qed

lemma process_snd: "snd (process_github_event_bundle now db k p) = snd (process_body now db k p)"
  by (simp add: process_github_event_bundle_def split: prod.splits sum.splits)

section \<open>Event rows and their repository rows\<close>


text \<open>
  Claim C10. Every write to the index keeps each event row attached to an existing
  repository row. \<open>add_event_metadata\<close> writes the event row and, when the repository
  named by the event is absent, the placeholder row with URL \<open>orn:<repo_rid>\<close>, in the
  one transaction the function commits; an existing repository row is left as it is.
  \<open>add_repository\<close>, \<open>update_repository_latest_commit\<close>, \<open>prune_old_data\<close> and a whole
  ingestion keep the property as well, whether they return or raise.
\<close>

theorem event_write_keeps_repository:
  assumes "no_orphans db"
  shows "(add_event_metadata now db event_rid repo_rid event_type timestamp commit_sha summary
            bundle_rid = Inr db' \<longrightarrow>
            no_orphans db' \<and> events db' event_rid \<noteq> None \<and>
            (repositories db repo_rid = None \<longrightarrow>
               repositories db' =
                 (repositories db)(repo_rid \<mapsto> \<lparr>r_repo_url = SText (''orn:'' @ repo_rid),
                    r_first_indexed = SText now, r_last_updated = SText now\<rparr>)) \<and>
            (repositories db repo_rid \<noteq> None \<longrightarrow> repositories db' = repositories db)) \<and>
         (add_repository now db repo_rid repo_url = Inr db'' \<longrightarrow> no_orphans db'') \<and>
         no_orphans (update_repository_latest_commit db repo_rid timestamp) \<and>
         no_orphans (db_left (prune_old_data older db)) \<and>
         no_orphans (snd (process_github_event_bundle now db kobj_rid payload))"
proof (intro conjI impI)
  assume a: "add_event_metadata now db event_rid repo_rid event_type timestamp commit_sha summary
            bundle_rid = Inr db'"
  from assms a show "no_orphans db'" by (rule no_orphans_add_event_metadata)
  from add_event_metadata_Inr [OF a] show "events db' event_rid \<noteq> None" by auto
  {
    assume "repositories db repo_rid = None"
    with add_event_metadata_Inr [OF a]
    show "repositories db' =
                 (repositories db)(repo_rid \<mapsto> \<lparr>r_repo_url = SText (''orn:'' @ repo_rid),
                    r_first_indexed = SText now, r_last_updated = SText now\<rparr>)" by auto
  }
  {
    assume "repositories db repo_rid \<noteq> None"
    with add_event_metadata_Inr [OF a]
    show "repositories db' = repositories db" by auto
  }
next
  assume "add_repository now db repo_rid repo_url = Inr db''"
  with assms show "no_orphans db''" by (rule no_orphans_add_repository)
next
  from assms show "no_orphans (update_repository_latest_commit db repo_rid timestamp)"
    by (rule no_orphans_update)
  from assms show "no_orphans (db_left (prune_old_data older db))" by (rule no_orphans_prune)
  show "no_orphans (snd (process_github_event_bundle now db kobj_rid payload))"
    unfolding process_snd
    using no_orphans_process_body [OF assms, of now kobj_rid payload] by (metis surjective_pairing)
qed




lemma add_event_metadata_empty:
  "add_event_metadata ''2024-01-01 00:00:00'' empty_db ''E1'' ''orn:github.repo:acme/widgets''
     (JStr ''push'') (JStr '''') JNull ''Push to acme/widgets'' ''E1'' =
   Inr \<lparr>repositories = Map.empty(''orn:github.repo:acme/widgets'' \<mapsto>
           \<lparr>r_repo_url = SText ''orn:orn:github.repo:acme/widgets'',
            r_first_indexed = SText ''2024-01-01 00:00:00'',
            r_last_updated = SText ''2024-01-01 00:00:00''\<rparr>),
         events = Map.empty(''E1'' \<mapsto>
           \<lparr>e_repo_rid = SText ''orn:github.repo:acme/widgets'', e_event_type = SText ''push'',
            e_timestamp = SText '''', e_commit_sha = SNull,
            e_summary = SText ''Push to acme/widgets'', e_bundle_rid = SText ''E1''\<rparr>),
         write_locked = False\<rparr>"
  by (simp add: add_event_metadata_def empty_db_def)


theorem event_write_keeps_repository_witness:
  "no_orphans empty_db \<and>
   no_orphans \<lparr>repositories = Map.empty(''orn:github.repo:acme/widgets'' \<mapsto>
           \<lparr>r_repo_url = SText ''orn:orn:github.repo:acme/widgets'',
            r_first_indexed = SText ''2024-01-01 00:00:00'',
            r_last_updated = SText ''2024-01-01 00:00:00''\<rparr>),
         events = Map.empty(''E1'' \<mapsto>
           \<lparr>e_repo_rid = SText ''orn:github.repo:acme/widgets'', e_event_type = SText ''push'',
            e_timestamp = SText '''', e_commit_sha = SNull,
            e_summary = SText ''Push to acme/widgets'', e_bundle_rid = SText ''E1''\<rparr>),
         write_locked = False\<rparr>"
proof -
  have a: "no_orphans empty_db" by (rule no_orphans_empty)
  note t = event_write_keeps_repository [where db = empty_db
      and now = "''2024-01-01 00:00:00''" and event_rid = "''E1''"
      and repo_rid = "''orn:github.repo:acme/widgets''" and event_type = "JStr ''push''"
      and timestamp = "JStr ''''" and commit_sha = JNull
      and summary = "''Push to acme/widgets''" and bundle_rid = "''E1''", OF a]
  from t [THEN conjunct1] add_event_metadata_empty a show ?thesis by blast
qed

section \<open>What a failed ingestion leaves in the index\<close>


lemma process_error_body:
  assumes "process_github_event_bundle now db k p = (out, db')" and "status out = ''error''"
  shows "\<exists>e. process_body now db k p = (Inl e, db')"
proof (cases "process_body now db k p")
  case (Pair r d)
  show ?thesis
  proof (cases r)
    case (Inl e)
    with Pair assms(1) show ?thesis by (simp add: process_github_event_bundle_def)
  next
    case (Inr res)
    with Pair assms(1) have o: "out = res" and d: "db' = d"
      by (simp_all add: process_github_event_bundle_def)
    from Pair Inr have "status res \<noteq> ''error''"
      unfolding process_body_def
      by (auto simp: Let_def split: sum.splits repo_info.splits prod.splits)
    with o assms(2) show ?thesis by simp
  qed
qed

text \<open>On a database whose write lock is held, the body stores nothing.\<close>

lemma process_body_locked:
  assumes "write_locked db" and "process_body now db k p = (r, db')"
  shows "db' = db \<and> (\<forall>out. r = Inr out \<longrightarrow> status out = ''skipped'')"
proof (cases "extract_repo_info p")
  case (Inl x)
  with assms(2) show ?thesis by (auto simp add: process_body_def)
next
  case (Inr info)
  show ?thesis
  proof (cases info)
    case (Skipped m)
    with Inr assms(2) show ?thesis by (auto simp add: process_body_def)
  next
    case (Repo owner repo url src)
    from add_repository_locked [OF assms(1)] obtain e where
      "add_repository now db (owner_repo_to_repo_rid (py_format owner) (py_format repo)) url
         = Inl (e, db)" by blast
    with Inr Repo assms(2) show ?thesis by (auto simp add: process_body_def Let_def)
  qed
qed

lemma process_locked:
  assumes "write_locked db" and "process_github_event_bundle now db k p = (out, db')"
  shows "db' = db \<and> status out \<noteq> ''success''"
proof (cases "process_body now db k p")
  case (Pair r d)
  from process_body_locked [OF assms(1) Pair] have d: "d = db"
    and s: "\<And>res. r = Inr res \<Longrightarrow> status res = ''skipped''" by blast+
  show ?thesis
  proof (cases r)
    case (Inl e)
    with Pair assms(2) d show ?thesis by (auto simp add: process_github_event_bundle_def)
  next
    case (Inr res)
    with Pair assms(2) d s [OF Inr] show ?thesis
      by (auto simp add: process_github_event_bundle_def)
  qed
qed

text \<open>
  Claim C2, as the spec states it, asks for one transaction around the repository
  upsert and the event upsert. The code commits each on its own connection. Here a
  push whose \<open>head_commit.timestamp\<close> is \<open>null\<close> is refused by the \<open>NOT NULL\<close> constraint
  on \<open>events.timestamp\<close>: the ingestion ends in \<open>error\<close>, no event row is written,
  and the repository row written before stays.
\<close>

theorem repository_kept_event_refused_counterexample:
  "(let payload =
      [(''repository'', JObj [(''owner'', JObj [(''login'', JStr ''acme'')]),
                              (''name'', JStr ''widgets''),
                              (''clone_url'', JStr ''https://github.com/acme/widgets.git'')]),
       (''head_commit'', JObj [(''id'', JStr ''abc1234''), (''timestamp'', JNull)])];
       r = process_github_event_bundle ''2024-01-01 00:00:00'' empty_db ''E1'' payload
    in status (fst r) = ''error'' \<and> message (fst r) = ExcText IntegrityError \<and>
       events (snd r) ''E1'' = None \<and>
       repositories empty_db ''orn:github.repo:acme/widgets'' = None \<and>
       repositories (snd r) ''orn:github.repo:acme/widgets'' =
         Some \<lparr>r_repo_url = SText ''https://github.com/acme/widgets.git'',
               r_first_indexed = SText ''2024-01-01 00:00:00'',
               r_last_updated = SText ''2024-01-01 00:00:00''\<rparr>)"
  by code_simp

text \<open>
  Claim C2, amended. The repository upsert and the event upsert are two transactions
  on two connections, each all-or-nothing on its own: a storage call that raises has
  committed nothing. When an ingestion ends in \<open>error\<close>, the events table is as it
  was, and the repositories table is either as it was or exactly what the repository
  upsert of this event committed. A storage call that raises does not close its
  connection; while a connection left open holds the write lock of the database, an
  ingestion changes nothing, neither rows nor lock, and does not end in \<open>success\<close>.
\<close>

theorem ingestion_error_storage:
  "(process_github_event_bundle now db kobj_rid payload = (out, db') \<and>
    status out = ''error'' \<longrightarrow>
      events db' = events db \<and>
      (repositories db' = repositories db \<or>
       (\<exists>owner repo url src db1.
          extract_repo_info payload = Inr (Repo owner repo url src) \<and>
          add_repository now db (owner_repo_to_repo_rid (py_format owner) (py_format repo)) url
            = Inr db1 \<and>
          repositories db' = repositories db1))) \<and>
   (process_github_event_bundle now db kobj_rid payload = (out, db') \<and> write_locked db \<longrightarrow>
      db' = db \<and> status out \<noteq> ''success'')"
proof (intro conjI impI)
  assume a: "process_github_event_bundle now db kobj_rid payload = (out, db') \<and>
    status out = ''error''"
  then obtain e where b: "process_body now db kobj_rid payload = (Inl e, db')"
    using process_error_body by blast
  from process_body_error [OF b] show "events db' = events db" by blast
  from process_body_error_rows [OF b]
  show "repositories db' = repositories db \<or>
       (\<exists>owner repo url src db1.
          extract_repo_info payload = Inr (Repo owner repo url src) \<and>
          add_repository now db (owner_repo_to_repo_rid (py_format owner) (py_format repo)) url
            = Inr db1 \<and>
          repositories db' = repositories db1)" by blast
next
  assume a: "process_github_event_bundle now db kobj_rid payload = (out, db') \<and> write_locked db"
  then show "db' = db" using process_locked by blast
  from a show "status out \<noteq> ''success''" using process_locked by blast
qed

lemma null_timestamp_status:
  "status (fst (process_github_event_bundle ''2024-01-01 00:00:00'' empty_db ''E0''
      [(''repository'', JObj [(''owner'', JObj [(''login'', JStr ''acme'')]),
                              (''name'', JStr ''widgets''),
                              (''clone_url'', JStr ''https://github.com/acme/widgets.git'')]),
       (''head_commit'', JObj [(''id'', JStr ''abc1234''), (''timestamp'', JNull)])])) = ''error''"
  "write_locked (snd (process_github_event_bundle ''2024-01-01 00:00:00'' empty_db ''E0''
      [(''repository'', JObj [(''owner'', JObj [(''login'', JStr ''acme'')]),
                              (''name'', JStr ''widgets''),
                              (''clone_url'', JStr ''https://github.com/acme/widgets.git'')]),
       (''head_commit'', JObj [(''id'', JStr ''abc1234''), (''timestamp'', JNull)])]))"
  by code_simp+

theorem ingestion_error_storage_witness:
  "(let refused = [(''repository'', JObj [(''owner'', JObj [(''login'', JStr ''acme'')]),
                              (''name'', JStr ''widgets''),
                              (''clone_url'', JStr ''https://github.com/acme/widgets.git'')]),
                   (''head_commit'', JObj [(''id'', JStr ''abc1234''), (''timestamp'', JNull)])];
        push = [(''repository'', JObj [(''owner'', JObj [(''login'', JStr ''acme'')]),
                              (''name'', JStr ''widgets''),
                              (''clone_url'', JStr ''https://github.com/acme/widgets.git'')]),
                (''head_commit'', JObj [(''id'', JStr ''abc1234'')])];
        first = process_github_event_bundle ''2024-01-01 00:00:00'' empty_db ''E0'' refused;
        second = process_github_event_bundle ''2024-01-01 00:00:01'' (snd first) ''E1'' push
    in status (fst first) = ''error'' \<and> events (snd first) = events empty_db \<and>
       write_locked (snd first) \<and>
       snd second = snd first \<and> status (fst second) \<noteq> ''success'')"
proof -
  let ?refused = "[(''repository'', JObj [(''owner'', JObj [(''login'', JStr ''acme'')]),
                              (''name'', JStr ''widgets''),
                              (''clone_url'', JStr ''https://github.com/acme/widgets.git'')]),
                   (''head_commit'', JObj [(''id'', JStr ''abc1234''), (''timestamp'', JNull)])]"
  let ?push = "[(''repository'', JObj [(''owner'', JObj [(''login'', JStr ''acme'')]),
                              (''name'', JStr ''widgets''),
                              (''clone_url'', JStr ''https://github.com/acme/widgets.git'')]),
                (''head_commit'', JObj [(''id'', JStr ''abc1234'')])]"
  let ?first = "process_github_event_bundle ''2024-01-01 00:00:00'' empty_db ''E0'' ?refused"
  let ?second = "process_github_event_bundle ''2024-01-01 00:00:01'' (snd ?first) ''E1'' ?push"
  have s: "status (fst ?first) = ''error''" by (rule null_timestamp_status(1))
  have l: "write_locked (snd ?first)" by (rule null_timestamp_status(2))
  have p: "?first = (fst ?first, snd ?first)" by simp
  have q: "?second = (fst ?second, snd ?second)" by simp
  from ingestion_error_storage [where now = "''2024-01-01 00:00:00''" and db = empty_db
      and kobj_rid = "''E0''" and payload = ?refused and out = "fst ?first"
      and db' = "snd ?first", THEN conjunct1] p s
  have 1: "events (snd ?first) = events empty_db" by blast
  from ingestion_error_storage [where now = "''2024-01-01 00:00:01''" and db = "snd ?first"
      and kobj_rid = "''E1''" and payload = ?push and out = "fst ?second"
      and db' = "snd ?second", THEN conjunct2] q l
  have 2: "snd ?second = snd ?first \<and> status (fst ?second) \<noteq> ''success''" by blast
  from s 1 l 2 show ?thesis unfolding Let_def by blast
qed

section \<open>The order of the shape tests\<close>







lemma process_success_body:
  assumes "process_github_event_bundle now db k p = (out, db')" and "status out = ''success''"
  shows "process_body now db k p = (Inr out, db')"
  using assms unfolding process_github_event_bundle_def
  by (auto split: prod.splits sum.splits)













lemma webhook_push_success:
  "status (fst (process_github_event_bundle ''2024-01-01 00:00:00'' empty_db ''E1''
     [(''repository'', JObj [(''owner'', JObj [(''login'', JStr ''acme'')]),
                             (''name'', JStr ''widgets''),
                             (''clone_url'', JStr ''https://github.com/acme/widgets.git'')]),
      (''head_commit'', JObj [(''id'', JStr ''abc1234'')])])) = ''success''"
  by code_simp


section \<open>Deduplication of deliveries\<close>


lemma handle_new:
  "cache (k_rid kobj) = None \<Longrightarrow>
   \<exists>k'. fst (handle_event_bundle now cache service db kobj) = Return (Some k') \<and>
        k' = kobj\<lparr>k_normalized_event_type := Some NEW\<rparr>"
  by (simp add: handle_event_bundle_def Let_def split: option.splits)

lemma handle_unchanged:
  "cache (k_rid kobj) = Some prev \<Longrightarrow> k_manifest kobj = Some m \<Longrightarrow>
   m_sha256_hash (b_manifest prev) = m_sha256_hash m \<Longrightarrow>
   handle_event_bundle now cache service db kobj = (STOP_CHAIN, db)"
  by (simp add: handle_event_bundle_def Let_def)

lemma handle_updated:
  "cache (k_rid kobj) = Some prev \<Longrightarrow> k_manifest kobj = Some m \<Longrightarrow>
   m_sha256_hash (b_manifest prev) \<noteq> m_sha256_hash m \<Longrightarrow>
   \<exists>k'. fst (handle_event_bundle now cache service db kobj) = Return (Some k') \<and>
        k' = kobj\<lparr>k_normalized_event_type := Some UPDATE\<rparr>"
  by (simp add: handle_event_bundle_def Let_def split: option.splits)

lemma handle_result_cases:
  "handle_event_bundle now cache service db kobj = (r, db') \<Longrightarrow>
     (r = STOP_CHAIN \<and> db' = db \<and>
        (\<exists>prev m. cache (k_rid kobj) = Some prev \<and> k_manifest kobj = Some m \<and>
            m_sha256_hash (b_manifest prev) = m_sha256_hash m))
   \<or> (\<exists>t. r = Return (Some (kobj\<lparr>k_normalized_event_type := Some t\<rparr>)) \<and>
          (t = NEW \<or> t = UPDATE))"
  unfolding handle_event_bundle_def
  by (auto simp: Let_def split: option.splits if_splits)

lemma kobj_bundle_update [simp]:
  "kobj_bundle (kobj\<lparr>k_normalized_event_type := t\<rparr>) = kobj_bundle kobj"
  by (simp add: kobj_bundle_def)

lemma deliver_twice:
  assumes m: "k_manifest kobj = Some m" and c: "k_contents kobj = Some payload"
    and d: "deliver_bundle now1 cache service db kobj = (r1, cache1, db1)"
  shows "deliver_bundle now2 cache1 service db1 kobj = (STOP_CHAIN, cache1, db1)"
proof -
  have b: "kobj_bundle kobj = Some \<lparr>b_manifest = m, b_contents = payload\<rparr>"
    using m c by (simp add: kobj_bundle_def)
  obtain r db' where h: "handle_event_bundle now1 cache service db kobj = (r, db')"
    by (cases "handle_event_bundle now1 cache service db kobj")
  from handle_result_cases [OF h]
  have "\<exists>prev. cache1 (k_rid kobj) = Some prev \<and>
           m_sha256_hash (b_manifest prev) = m_sha256_hash m"
  proof (elim disjE conjE exE)
    fix prev m'
    assume "r = STOP_CHAIN" "cache (k_rid kobj) = Some prev" "k_manifest kobj = Some m'"
      "m_sha256_hash (b_manifest prev) = m_sha256_hash m'"
    with d h m show ?thesis by (simp add: deliver_bundle_def)
  next
    fix t
    assume "r = Return (Some (kobj\<lparr>k_normalized_event_type := Some t\<rparr>))" "t = NEW"
    with d h b show ?thesis by (auto simp add: deliver_bundle_def)
  next
    fix t
    assume "r = Return (Some (kobj\<lparr>k_normalized_event_type := Some t\<rparr>))" "t = UPDATE"
    with d h b show ?thesis by (auto simp add: deliver_bundle_def)
  qed
  then obtain prev where "cache1 (k_rid kobj) = Some prev"
    "m_sha256_hash (b_manifest prev) = m_sha256_hash m" by blast
  with m have "handle_event_bundle now2 cache1 service db1 kobj = (STOP_CHAIN, db1)"
    by (simp add: handle_unchanged)
  then show ?thesis by (simp add: deliver_bundle_def)
qed

lemma deliver_first_new:
  assumes n: "cache (k_rid kobj) = None"
    and m: "k_manifest kobj = Some m" and c: "k_contents kobj = Some payload"
    and p: "payload \<noteq> []"
  shows "deliver_bundle now cache (Some service) db kobj =
     (Return (Some (kobj\<lparr>k_normalized_event_type := Some NEW\<rparr>)),
      cache(k_rid kobj \<mapsto> \<lparr>b_manifest = m, b_contents = payload\<rparr>),
      snd (process_github_event_bundle now db (str_of_rid (k_rid kobj)) payload))"
  using assms
  by (simp add: deliver_bundle_def handle_event_bundle_def Let_def kobj_bundle_def)

lemma process_success_event:
  assumes "process_github_event_bundle now db k p = (out, db')" and "status out = ''success''"
  shows "events db' k \<noteq> None"
proof -
  from process_success_body [OF assms] assms(2) show ?thesis
  proof (rule process_body_success)
    fix owner repo url src db1 sha ts msg summ
    assume "add_event_metadata now db1 k (owner_repo_to_repo_rid (py_format owner) (py_format repo))
           (if has_key p ''event_source_type'' then src else dict_get p ''event_type'' (JStr ''push''))
           (if truthy sha then ts else JStr []) (if truthy sha then sha else JNull) summ k = Inr db'"
    from add_event_metadata_Inr [OF this] show ?thesis by auto
  qed
qed


lemma handle_processed:
  assumes "handle_event_bundle now cache (Some svc) db kobj = (r, db')" and "r \<noteq> STOP_CHAIN"
    and "k_manifest kobj = Some m" and "k_contents kobj = Some payload" and "payload \<noteq> []"
  shows "db' = snd (process_github_event_bundle now db (str_of_rid (k_rid kobj)) payload)"
  using assms unfolding handle_event_bundle_def
  by (auto simp: Let_def kobj_bundle_def split: if_splits)

lemma deliver_handle:
  assumes "deliver_bundle now cache service db kobj = (r1, cache1, db1)"
  shows "handle_event_bundle now cache service db kobj = (r1, db1)"
  using assms unfolding deliver_bundle_def
  by (auto split: prod.splits handler_result.splits option.splits event_type.splits)

lemma handle_db_cases:
  assumes "handle_event_bundle now cache service db kobj = (r, db')"
    and "k_contents kobj = Some payload"
  shows "db' = db \<or>
         db' = snd (process_github_event_bundle now db (str_of_rid (k_rid kobj)) payload)"
  using assms unfolding handle_event_bundle_def
  by (auto simp: Let_def kobj_bundle_def split: option.splits if_splits)

lemma process_not_success_events:
  assumes "status (fst (process_github_event_bundle now db k p)) \<noteq> ''success''"
  shows "events (snd (process_github_event_bundle now db k p)) = events db"
proof (cases "process_body now db k p")
  case (Pair r d)
  show ?thesis
  proof (cases r)
    case (Inl e)
    with Pair have "snd (process_github_event_bundle now db k p) = d"
      by (simp add: process_github_event_bundle_def)
    moreover from Pair Inl have "events d = events db" using process_body_error by blast
    ultimately show ?thesis by simp
  next
    case (Inr out)
    with Pair have o: "process_github_event_bundle now db k p = (out, d)"
      by (simp add: process_github_event_bundle_def)
    with assms have "status out \<noteq> ''success''" by simp
    with Pair Inr have "d = db" using process_body_not_success by blast
    with o show ?thesis by simp
  qed
qed

text \<open>
  Claim C1, as the spec states it, promises one stored event record after the same
  delivery has come twice. The hash that decides is the one of the bundle in the
  cache, and the bundle is cached whether or not the ingestion stored the event. Here
  the push \<open>E0\<close>, whose \<open>head_commit.timestamp\<close> is \<open>null\<close>, is refused by the index
  (\<open>error\<close>); delivered again it is stopped as unchanged, and the index holds no
  record for it. The refused write has left its connection open, holding the write
  lock: the push \<open>E1\<close> for \<open>acme/widgets\<close> with commit \<open>abc1234\<close>, delivered next, ends
  in \<open>error\<close> as well. After the connection is freed the index takes this very push
  (\<open>success\<close> when ingested directly), but the second delivery of \<open>E1\<close> is stopped as
  unchanged, and the index holds no record for \<open>E1\<close> either.
\<close>

theorem unstored_twice_counterexample:
  "(let repo = JObj [(''owner'', JObj [(''login'', JStr ''acme'')]),
                     (''name'', JStr ''widgets''),
                     (''clone_url'', JStr ''https://github.com/acme/widgets.git'')];
        refused = [(''repository'', repo),
                   (''head_commit'', JObj [(''id'', JStr ''abc1234''), (''timestamp'', JNull)])];
        push = [(''repository'', repo), (''head_commit'', JObj [(''id'', JStr ''abc1234'')])];
        e0 = \<lparr>k_rid = RID GitHubEvent ''E0'',
               k_manifest = Some \<lparr>m_rid = RID GitHubEvent ''E0'',
                                   m_timestamp = ''2024-01-01T00:00:00Z'',
                                   m_sha256_hash = ''9f86d081884c''\<rparr>,
               k_contents = Some refused,
               k_normalized_event_type = None, k_source = External\<rparr>;
        e1 = \<lparr>k_rid = RID GitHubEvent ''E1'',
               k_manifest = Some \<lparr>m_rid = RID GitHubEvent ''E1'',
                                   m_timestamp = ''2024-01-01T00:00:00Z'',
                                   m_sha256_hash = ''5d41402abc4b''\<rparr>,
               k_contents = Some push,
               k_normalized_event_type = None, k_source = External\<rparr>;
        service = Some \<lparr>index_db_path = ''index.db''\<rparr>;
        d1 = deliver_bundle ''2024-01-01 00:00:00'' Map.empty service empty_db e0;
        d2 = deliver_bundle ''2024-01-01 00:00:01'' (fst (snd d1)) service (snd (snd d1)) e0;
        d3 = deliver_bundle ''2024-01-01 00:00:02'' (fst (snd d2)) service (snd (snd d2)) e1;
        freed = connection_freed (snd (snd d3));
        d4 = deliver_bundle ''2024-01-01 00:00:03'' (fst (snd d3)) service freed e1
    in status (fst (process_github_event_bundle ''2024-01-01 00:00:00'' empty_db ''E0'' refused))
         = ''error'' \<and>
       fst d1 = Return (Some (e0\<lparr>k_normalized_event_type := Some NEW\<rparr>)) \<and>
       fst d2 = STOP_CHAIN \<and>
       events (snd (snd d2)) ''E0'' = None \<and>
       write_locked (snd (snd d2)) \<and>
       status (fst (process_github_event_bundle ''2024-01-01 00:00:02'' (snd (snd d2)) ''E1'' push))
         = ''error'' \<and>
       fst d3 = Return (Some (e1\<lparr>k_normalized_event_type := Some NEW\<rparr>)) \<and>
       status (fst (process_github_event_bundle ''2024-01-01 00:00:03'' freed ''E1'' push))
         = ''success'' \<and>
       fst d4 = STOP_CHAIN \<and>
       events (snd (snd d4)) ''E1'' = None)"
  by code_simp

text \<open>
  Claim C1, amended. For every event identifier the handler classifies a delivery as
  \<open>NEW\<close> when the cache holds no bundle for it, as unchanged when a cached bundle
  exists and its hash equals the hash of the incoming manifest (the handler returns
  \<open>STOP_CHAIN\<close> and the database is untouched), and as \<open>UPDATE\<close> when a cached bundle
  exists and the hashes differ. Consequently, when the same object (identifier,
  manifest, payload) is delivered twice, the second delivery is stopped as unchanged
  and leaves cache and database as the first delivery left them. After the first
  delivery the index holds an event record for the identifier when the delivery was
  processed and its ingestion ended in \<open>success\<close>; when the ingestion of the payload
  does not end in \<open>success\<close>, the delivery leaves the events table as it was.
\<close>

theorem dedup_classification:
  "(cache (k_rid kobj) = None \<longrightarrow>
      fst (handle_event_bundle now cache service db kobj) =
        Return (Some (kobj\<lparr>k_normalized_event_type := Some NEW\<rparr>))) \<and>
   (cache (k_rid kobj) = Some prev \<and> k_manifest kobj = Some m \<and>
    m_sha256_hash (b_manifest prev) = m_sha256_hash m \<longrightarrow>
      handle_event_bundle now cache service db kobj = (STOP_CHAIN, db)) \<and>
   (cache (k_rid kobj) = Some prev \<and> k_manifest kobj = Some m \<and>
    m_sha256_hash (b_manifest prev) \<noteq> m_sha256_hash m \<longrightarrow>
      fst (handle_event_bundle now cache service db kobj) =
        Return (Some (kobj\<lparr>k_normalized_event_type := Some UPDATE\<rparr>))) \<and>
   (k_manifest kobj = Some m \<and> k_contents kobj = Some payload \<and>
    deliver_bundle now cache service db kobj = (res, cache', db') \<longrightarrow>
      deliver_bundle now' cache' service db' kobj = (STOP_CHAIN, cache', db')) \<and>
   (k_manifest kobj = Some m \<and> k_contents kobj = Some payload \<and> payload \<noteq> [] \<and>
    deliver_bundle now cache (Some svc) db kobj = (res, cache', db') \<and> res \<noteq> STOP_CHAIN \<and>
    status (fst (process_github_event_bundle now db (str_of_rid (k_rid kobj)) payload))
      = ''success'' \<longrightarrow>
      events db' (str_of_rid (k_rid kobj)) \<noteq> None) \<and>
   (k_contents kobj = Some payload \<and>
    deliver_bundle now cache service db kobj = (res, cache', db') \<and>
    status (fst (process_github_event_bundle now db (str_of_rid (k_rid kobj)) payload))
      \<noteq> ''success'' \<longrightarrow>
      events db' = events db)"
proof (intro conjI impI)
  assume a: "k_contents kobj = Some payload \<and>
    deliver_bundle now cache service db kobj = (res, cache', db') \<and>
    status (fst (process_github_event_bundle now db (str_of_rid (k_rid kobj)) payload))
      \<noteq> ''success''"
  then have "handle_event_bundle now cache service db kobj = (res, db')"
    by (simp add: deliver_handle)
  from handle_db_cases [OF this] a
  have "db' = db \<or>
        db' = snd (process_github_event_bundle now db (str_of_rid (k_rid kobj)) payload)"
    by blast
  then show "events db' = events db"
    using a process_not_success_events by auto
next
  assume "cache (k_rid kobj) = None"
  from handle_new [of cache kobj now service db, OF this]
  show "fst (handle_event_bundle now cache service db kobj) =
        Return (Some (kobj\<lparr>k_normalized_event_type := Some NEW\<rparr>))" by blast
next
  assume "cache (k_rid kobj) = Some prev \<and> k_manifest kobj = Some m \<and>
    m_sha256_hash (b_manifest prev) = m_sha256_hash m"
  then show "handle_event_bundle now cache service db kobj = (STOP_CHAIN, db)"
    by (simp add: handle_unchanged)
next
  assume "cache (k_rid kobj) = Some prev \<and> k_manifest kobj = Some m \<and>
    m_sha256_hash (b_manifest prev) \<noteq> m_sha256_hash m"
  then have "\<exists>k'. fst (handle_event_bundle now cache service db kobj) = Return (Some k') \<and>
        k' = kobj\<lparr>k_normalized_event_type := Some UPDATE\<rparr>"
    by (simp add: handle_updated)
  then show "fst (handle_event_bundle now cache service db kobj) =
        Return (Some (kobj\<lparr>k_normalized_event_type := Some UPDATE\<rparr>))" by blast
next
  assume "k_manifest kobj = Some m \<and> k_contents kobj = Some payload \<and>
    deliver_bundle now cache service db kobj = (res, cache', db')"
  then show "deliver_bundle now' cache' service db' kobj = (STOP_CHAIN, cache', db')"
    using deliver_twice by blast
next
  assume a: "k_manifest kobj = Some m \<and> k_contents kobj = Some payload \<and> payload \<noteq> [] \<and>
    deliver_bundle now cache (Some svc) db kobj = (res, cache', db') \<and> res \<noteq> STOP_CHAIN \<and>
    status (fst (process_github_event_bundle now db (str_of_rid (k_rid kobj)) payload))
      = ''success''"
  let ?p = "process_github_event_bundle now db (str_of_rid (k_rid kobj)) payload"
  from a have h: "handle_event_bundle now cache (Some svc) db kobj = (res, db')"
    by (simp add: deliver_handle)
  from handle_processed [OF h] a have "db' = snd ?p" by blast
  then have "?p = (fst ?p, db')" by simp
  from process_success_event [OF this] a
  show "events db' (str_of_rid (k_rid kobj)) \<noteq> None" by blast
qed


lemma push_delivery_first:
  "fst (deliver_bundle ''2024-01-01 00:00:00'' Map.empty
          (Some \<lparr>index_db_path = ''index.db''\<rparr>) empty_db
          \<lparr>k_rid = RID GitHubEvent ''E1'',
            k_manifest = Some \<lparr>m_rid = RID GitHubEvent ''E1'',
                                m_timestamp = ''2024-01-01T00:00:00Z'',
                                m_sha256_hash = ''5d41402abc4b''\<rparr>,
            k_contents = Some
              [(''repository'', JObj [(''owner'', JObj [(''login'', JStr ''acme'')]),
                                      (''name'', JStr ''widgets''),
                                      (''clone_url'', JStr ''https://github.com/acme/widgets.git'')]),
               (''head_commit'', JObj [(''id'', JStr ''abc1234'')])],
            k_normalized_event_type = None, k_source = External\<rparr>) \<noteq> STOP_CHAIN"
  by code_simp

theorem dedup_classification_witness:
  "(let kobj = \<lparr>k_rid = RID GitHubEvent ''E1'',
                 k_manifest = Some \<lparr>m_rid = RID GitHubEvent ''E1'',
                                     m_timestamp = ''2024-01-01T00:00:00Z'',
                                     m_sha256_hash = ''5d41402abc4b''\<rparr>,
                 k_contents = Some
                   [(''repository'', JObj [(''owner'', JObj [(''login'', JStr ''acme'')]),
                                           (''name'', JStr ''widgets''),
                                           (''clone_url'', JStr ''https://github.com/acme/widgets.git'')]),
                    (''head_commit'', JObj [(''id'', JStr ''abc1234'')])],
                 k_normalized_event_type = None, k_source = External\<rparr>;
        service = Some \<lparr>index_db_path = ''index.db''\<rparr>;
        first = deliver_bundle ''2024-01-01 00:00:00'' Map.empty service empty_db kobj;
        refused = kobj\<lparr>k_contents := Some
                   [(''repository'', JObj [(''owner'', JObj [(''login'', JStr ''acme'')]),
                                           (''name'', JStr ''widgets''),
                                           (''clone_url'', JStr ''https://github.com/acme/widgets.git'')]),
                    (''head_commit'', JObj [(''id'', JStr ''abc1234''), (''timestamp'', JNull)])]\<rparr>
    in events (snd (snd first)) ''E1'' \<noteq> None \<and>
       deliver_bundle ''2024-01-01 00:00:01'' (fst (snd first)) service (snd (snd first)) kobj =
         (STOP_CHAIN, fst (snd first), snd (snd first)) \<and>
       events (snd (snd (deliver_bundle ''2024-01-01 00:00:00'' Map.empty service empty_db
                           refused))) = events empty_db)"
proof -
  let ?m = "\<lparr>m_rid = RID GitHubEvent ''E1'', m_timestamp = ''2024-01-01T00:00:00Z'',
             m_sha256_hash = ''5d41402abc4b''\<rparr>"
  let ?payload = "[(''repository'', JObj [(''owner'', JObj [(''login'', JStr ''acme'')]),
                                           (''name'', JStr ''widgets''),
                                           (''clone_url'', JStr ''https://github.com/acme/widgets.git'')]),
                    (''head_commit'', JObj [(''id'', JStr ''abc1234'')])]"
  let ?kobj = "\<lparr>k_rid = RID GitHubEvent ''E1'', k_manifest = Some ?m,
                 k_contents = Some ?payload,
                 k_normalized_event_type = None, k_source = External\<rparr>"
  let ?svc = "\<lparr>index_db_path = ''index.db''\<rparr>"
  let ?first = "deliver_bundle ''2024-01-01 00:00:00'' Map.empty (Some ?svc) empty_db ?kobj"
  note t = dedup_classification [where cache = Map.empty and kobj = ?kobj
      and now = "''2024-01-01 00:00:00''" and service = "Some ?svc" and svc = ?svc
      and db = empty_db and m = ?m and payload = ?payload and res = "fst ?first"
      and cache' = "fst (snd ?first)" and db' = "snd (snd ?first)"
      and now' = "''2024-01-01 00:00:01''"]
  have m: "k_manifest ?kobj = Some ?m" by simp
  have c: "k_contents ?kobj = Some ?payload" by simp
  have r: "str_of_rid (k_rid ?kobj) = ''E1''" by simp
  have p: "?first = (fst ?first, fst (snd ?first), snd (snd ?first))" by simp
  have ne: "?payload \<noteq> []" by simp
  have n: "fst ?first \<noteq> STOP_CHAIN" by (rule push_delivery_first)
  have s: "status (fst (process_github_event_bundle ''2024-01-01 00:00:00'' empty_db
             (str_of_rid (k_rid ?kobj)) ?payload)) = ''success''"
    unfolding r by (rule webhook_push_success)
  from t [THEN conjunct2, THEN conjunct2, THEN conjunct2, THEN conjunct1] m c p
  have second: "deliver_bundle ''2024-01-01 00:00:01'' (fst (snd ?first)) (Some ?svc)
      (snd (snd ?first)) ?kobj = (STOP_CHAIN, fst (snd ?first), snd (snd ?first))"
    by blast
  from t [THEN conjunct2, THEN conjunct2, THEN conjunct2, THEN conjunct2, THEN conjunct1]
    m c ne p n s
  have "events (snd (snd ?first)) (str_of_rid (k_rid ?kobj)) \<noteq> None" by blast
  then have stored: "events (snd (snd ?first)) ''E1'' \<noteq> None" unfolding r .
  let ?bad = "[(''repository'', JObj [(''owner'', JObj [(''login'', JStr ''acme'')]),
                                           (''name'', JStr ''widgets''),
                                           (''clone_url'', JStr ''https://github.com/acme/widgets.git'')]),
                    (''head_commit'', JObj [(''id'', JStr ''abc1234''), (''timestamp'', JNull)])]"
  let ?refused = "?kobj\<lparr>k_contents := Some ?bad\<rparr>"
  let ?d = "deliver_bundle ''2024-01-01 00:00:00'' Map.empty (Some ?svc) empty_db ?refused"
  have rc: "k_contents ?refused = Some ?bad" by simp
  have rr: "str_of_rid (k_rid ?refused) = ''E1''" by simp
  have rp: "?d = (fst ?d, fst (snd ?d), snd (snd ?d))" by simp
  have rs: "status (fst (process_github_event_bundle ''2024-01-01 00:00:00'' empty_db
             (str_of_rid (k_rid ?refused)) ?bad)) \<noteq> ''success''"
    unfolding rr by code_simp
  from dedup_classification [where cache = Map.empty and kobj = ?refused
      and now = "''2024-01-01 00:00:00''" and service = "Some ?svc" and db = empty_db
      and payload = ?bad and res = "fst ?d" and cache' = "fst (snd ?d)" and db' = "snd (snd ?d)",
      THEN conjunct2, THEN conjunct2, THEN conjunct2, THEN conjunct2, THEN conjunct2] rc rp rs
  have kept: "events (snd (snd ?d)) = events empty_db" by blast
  from stored second kept show ?thesis unfolding Let_def by (intro conjI)
qed

section \<open>What the discovery handler does\<close>


lemma catch_up_head: "take 1 (catch_up env peer) = [FetchRids peer]"
  by (simp add: catch_up_def)

lemma catch_up_none:
  "fetch_rids env peer = Inr None \<or> fetch_rids env peer = Inr (Some []) \<Longrightarrow>
   catch_up env peer = [FetchRids peer]"
  by (auto simp: catch_up_def)

lemma discovery_not_provider:
  assumes "k_normalized_event_type kobj = Some NEW" and "k_source kobj = External"
    and "kobj_bundle kobj = Some b" and "validate_contents env (b_contents b) = Inr profile"
    and "GitHubEvent \<notin> set (provides_event profile)"
  shows "handle_network_discovery env self kobj = (Return None, [])"
  using assms by (simp add: handle_network_discovery_def)

lemma discovery_provider:
  assumes "k_normalized_event_type kobj = Some NEW" and "k_source kobj = External"
    and "kobj_bundle kobj = Some b" and "validate_contents env (b_contents b) = Inr profile"
    and "GitHubEvent \<in> set (provides_event profile)"
    and "type_of_rid (k_rid kobj) = KoiNetNode"
    and "proc_handle env (HandleEdgeBundle self (k_rid kobj)) = None"
  shows "handle_network_discovery env self kobj =
           (Return (Some kobj), HandleEdgeBundle self (k_rid kobj) # catch_up env (k_rid kobj))"
  using assms by (simp add: handle_network_discovery_def)

text \<open>
  Claim C9. For a newly discovered external peer (normalized event type \<open>NEW\<close>,
  source \<open>External\<close>, a bundle whose contents validate as a node profile): when the
  profile does not provide \<open>GitHubEvent\<close>, the handler makes no call at all; when it
  does (the peer's RID being a \<open>KoiNetNode\<close>, and the edge bundle accepted by
  \<open>proc.handle\<close>), the first two calls are the edge proposal and the request for the
  peer's \<open>GitHubEvent\<close> RIDs, and when that request returns no RIDs they are the
  only calls: no bundle is fetched.
\<close>

theorem discovery_actions:
  assumes "k_normalized_event_type kobj = Some NEW" and "k_source kobj = External"
    and "kobj_bundle kobj = Some b" and "validate_contents env (b_contents b) = Inr profile"
  shows "(GitHubEvent \<notin> set (provides_event profile) \<longrightarrow>
            snd (handle_network_discovery env self kobj) = []) \<and>
         (GitHubEvent \<in> set (provides_event profile) \<and>
          type_of_rid (k_rid kobj) = KoiNetNode \<and>
          proc_handle env (HandleEdgeBundle self (k_rid kobj)) = None \<longrightarrow>
            take 2 (snd (handle_network_discovery env self kobj)) =
              [HandleEdgeBundle self (k_rid kobj), FetchRids (k_rid kobj)] \<and>
            (fetch_rids env (k_rid kobj) = Inr None \<or>
             fetch_rids env (k_rid kobj) = Inr (Some []) \<longrightarrow>
               snd (handle_network_discovery env self kobj) =
                 [HandleEdgeBundle self (k_rid kobj), FetchRids (k_rid kobj)]))"
proof (intro conjI impI)
  assume "GitHubEvent \<notin> set (provides_event profile)"
  with assms show "snd (handle_network_discovery env self kobj) = []"
    by (simp add: discovery_not_provider)
next
  assume a: "GitHubEvent \<in> set (provides_event profile) \<and>
          type_of_rid (k_rid kobj) = KoiNetNode \<and>
          proc_handle env (HandleEdgeBundle self (k_rid kobj)) = None"
  with assms have d: "snd (handle_network_discovery env self kobj) =
      HandleEdgeBundle self (k_rid kobj) # catch_up env (k_rid kobj)"
    by (simp add: discovery_provider)
  show "take 2 (snd (handle_network_discovery env self kobj)) =
              [HandleEdgeBundle self (k_rid kobj), FetchRids (k_rid kobj)]"
    unfolding d by (simp add: catch_up_def)
  assume "fetch_rids env (k_rid kobj) = Inr None \<or>
             fetch_rids env (k_rid kobj) = Inr (Some [])"
  then show "snd (handle_network_discovery env self kobj) =
                 [HandleEdgeBundle self (k_rid kobj), FetchRids (k_rid kobj)]"
    unfolding d by (simp add: catch_up_none)
qed

theorem discovery_actions_witness:
  "(let peer = RID KoiNetNode ''orn:koi-net.node:github-sensor+abc'';
        self = RID KoiNetNode ''orn:koi-net.node:processor_github+def'';
        kobj = \<lparr>k_rid = peer,
                 k_manifest = Some \<lparr>m_rid = peer, m_timestamp = ''2024-01-01T00:00:00Z'',
                                     m_sha256_hash = ''5d41402abc4b''\<rparr>,
                 k_contents = Some [(''node_type'', JStr ''FULL'')],
                 k_normalized_event_type = Some NEW, k_source = External\<rparr>;
        sensor = \<lparr>validate_contents = (\<lambda>c. Inr \<lparr>provides_event = [GitHubEvent],
                                                     provides_state = [GitHubEvent]\<rparr>),
                   fetch_rids = (\<lambda>p. Inr (Some [])),
                   fetch_bundles = (\<lambda>p rids. Inr []),
                   proc_handle = (\<lambda>a. None)\<rparr>;
        other = \<lparr>validate_contents = (\<lambda>c. Inr \<lparr>provides_event = [KoiNetNode],
                                                    provides_state = []\<rparr>),
                  fetch_rids = (\<lambda>p. Inr (Some [RID GitHubEvent ''E1''])),
                  fetch_bundles = (\<lambda>p rids. Inr []),
                  proc_handle = (\<lambda>a. None)\<rparr>
    in snd (handle_network_discovery other self kobj) = [] \<and>
       snd (handle_network_discovery sensor self kobj) =
         [HandleEdgeBundle self peer, FetchRids peer])"
proof -
  let ?peer = "RID KoiNetNode ''orn:koi-net.node:github-sensor+abc''"
  let ?self = "RID KoiNetNode ''orn:koi-net.node:processor_github+def''"
  let ?m = "\<lparr>m_rid = ?peer, m_timestamp = ''2024-01-01T00:00:00Z'',
             m_sha256_hash = ''5d41402abc4b''\<rparr>"
  let ?kobj = "\<lparr>k_rid = ?peer, k_manifest = Some ?m,
                 k_contents = Some [(''node_type'', JStr ''FULL'')],
                 k_normalized_event_type = Some NEW, k_source = External\<rparr>"
  let ?b = "\<lparr>b_manifest = ?m, b_contents = [(''node_type'', JStr ''FULL'')]\<rparr>"
  let ?sp = "\<lparr>provides_event = [GitHubEvent], provides_state = [GitHubEvent]\<rparr>"
  let ?op = "\<lparr>provides_event = [KoiNetNode], provides_state = []\<rparr>"
  let ?sensor = "\<lparr>validate_contents = (\<lambda>c. Inr ?sp),
                   fetch_rids = (\<lambda>p. Inr (Some [])),
                   fetch_bundles = (\<lambda>p rids. Inr []),
                   proc_handle = (\<lambda>a. None)\<rparr>"
  let ?other = "\<lparr>validate_contents = (\<lambda>c. Inr ?op),
                  fetch_rids = (\<lambda>p. Inr (Some [RID GitHubEvent ''E1''])),
                  fetch_bundles = (\<lambda>p rids. Inr []),
                  proc_handle = (\<lambda>a. None)\<rparr>"
  have n: "k_normalized_event_type ?kobj = Some NEW" by simp
  have e: "k_source ?kobj = External" by simp
  have b: "kobj_bundle ?kobj = Some ?b" by (simp add: kobj_bundle_def)
  have vs: "validate_contents ?sensor (b_contents ?b) = Inr ?sp" by simp
  have vo: "validate_contents ?other (b_contents ?b) = Inr ?op" by simp
  from discovery_actions [OF n e b vo, of ?self, THEN conjunct1]
  have 1: "snd (handle_network_discovery ?other ?self ?kobj) = []" by simp
  from discovery_actions [OF n e b vs, of ?self, THEN conjunct2]
  have 2: "snd (handle_network_discovery ?sensor ?self ?kobj) =
         [HandleEdgeBundle ?self ?peer, FetchRids ?peer]" by simp
  from 1 2 show ?thesis unfolding Let_def by (rule conjI)
qed

section \<open>Splitting and joining at a character\<close>


lemma split_char_nonempty [simp]: "split_char c s \<noteq> []"
  by (induction s) (auto split: list.splits)

lemma split_char_no_sep: "c \<notin> set s \<Longrightarrow> split_char c s = [s]"
  by (induction s) auto

lemma split_char_append:
  "split_char c (a @ c # b) = split_char c a @ split_char c b"
proof (induction a)
  case Nil
  then show ?case by simp
next
  case (Cons x a)
  then show ?case
    by (cases "split_char c a") (auto split: list.splits)
qed

lemma split_char_parts: "p \<in> set (split_char c s) \<Longrightarrow> c \<notin> set p"
proof (induction s arbitrary: p)
  case Nil
  then show ?case by simp
next
  case (Cons x s)
  show ?case
  proof (cases "x = c")
    case True
    with Cons show ?thesis by auto
  next
    case False
    obtain q qs where q: "split_char c s = q # qs"
      by (cases "split_char c s") (use split_char_nonempty in auto)
    with False Cons.prems have "p = x # q \<or> p \<in> set qs" by auto
    then show ?thesis
    proof
      assume "p = x # q"
      moreover have "c \<notin> set q" using Cons.IH [of q] q by simp
      ultimately show ?thesis using False by auto
    next
      assume "p \<in> set qs"
      then show ?thesis using Cons.IH [of p] q by simp
    qed
  qed
qed

lemma py_join_snoc:
  "xs \<noteq> [] \<Longrightarrow> py_join sep (xs @ [d]) = py_join sep xs @ sep @ d"
  by (induction sep xs rule: py_join.induct) auto

lemma split_py_join:
  "xs \<noteq> [] \<Longrightarrow> \<forall>p \<in> set xs. c \<notin> set p \<Longrightarrow> split_char c (py_join [c] xs) = xs"
proof (induction "[c]" xs rule: py_join.induct)
  case 1
  then show ?case by simp
next
  case (2 x)
  then show ?case by (simp add: split_char_no_sep)
next
  case (3 x y ys)
  then show ?case by (simp add: split_char_append split_char_no_sep)
qed

lemma py_join_split: "py_join [c] (split_char c s) = s"
proof (induction s)
  case Nil
  then show ?case by simp
next
  case (Cons x s)
  obtain q qs where q: "split_char c s = q # qs"
    by (cases "split_char c s") (use split_char_nonempty in auto)
  show ?case
  proof (cases "x = c")
    case True
    with Cons q show ?thesis by simp
  next
    case False
    with Cons q show ?thesis by (cases qs) auto
  qed
qed

section \<open>The loop of normpath\<close>


lemma startswith_Nil [simp]: "startswith s []"
  by (simp add: startswith_def)

lemma startswith_Nil_Cons [simp]: "\<not> startswith [] (y # p)"
  by (simp add: startswith_def)

lemma startswith_Cons_Cons [simp]: "startswith (x # s) (y # p) \<longleftrightarrow> x = y \<and> startswith s p"
  by (auto simp: startswith_def)

lemma is_name_dotdot [simp]: "\<not> is_name ''..''" "\<not> is_name ''.''" "\<not> is_name []"
  by (simp_all add: is_name_def)

lemma relclean_names: "list_all is_name xs \<Longrightarrow> relclean xs"
  by (cases xs) auto

lemma relclean_snoc:
  "relclean (ys @ [x]) \<longleftrightarrow>
     (x = ''..'' \<and> (\<forall>p \<in> set ys. p = ''..'')) \<or> (is_name x \<and> relclean ys)"
proof (induction ys)
  case Nil
  then show ?case by (auto simp: is_name_def)
next
  case (Cons y ys)
  show ?case
  proof (cases "y = ''..''")
    case True
    with Cons show ?thesis by auto
  next
    case False
    then show ?thesis
      by (cases ys) (auto simp: list_all_iff relclean_names)
  qed
qed

lemma relclean_last_dotdot:
  "relclean ys \<Longrightarrow> ys \<noteq> [] \<Longrightarrow> last ys = ''..'' \<Longrightarrow> \<forall>p \<in> set ys. p = ''..''"
proof (induction ys rule: rev_induct)
  case Nil
  then show ?case by simp
next
  case (snoc x xs)
  then show ?case by (auto simp: relclean_snoc)
qed

lemma relclean_butlast: "relclean ys \<Longrightarrow> relclean (butlast ys)"
proof (induction ys rule: rev_induct)
  case Nil
  then show ?case by simp
next
  case (snoc x xs)
  then show ?case
  proof (cases "x = ''..''")
    case True
    with snoc.prems have "\<forall>p \<in> set xs. p = ''..''" by (simp add: relclean_snoc)
    then have "relclean xs" by (induction xs) auto
    then show ?thesis by simp
  next
    case False
    with snoc.prems show ?thesis by (simp add: relclean_snoc)
  qed
qed

lemma relclean_no_dot: "relclean ys \<Longrightarrow> p \<in> set ys \<Longrightarrow> p \<noteq> [] \<and> p \<noteq> ''.''"
  by (induction ys) (auto simp: list_all_iff is_name_def split: if_splits)

lemma relclean_last_name:
  "relclean ys \<Longrightarrow> ys \<noteq> [] \<Longrightarrow> last ys \<noteq> ''..'' \<Longrightarrow> is_name (last ys)"
  using relclean_no_dot [of ys "last ys"] by (simp add: is_name_def)

text \<open>One step of the loop keeps the normal form.\<close>

lemma norm_step_relclean: "relclean acc \<Longrightarrow> relclean (norm_step 0 acc x)"
  unfolding norm_step_def
  by (auto simp: relclean_snoc relclean_butlast is_name_def dest: relclean_last_dotdot)

lemma norm_fold_relclean: "relclean acc \<Longrightarrow> relclean (foldl (norm_step 0) acc xs)"
  by (induction xs arbitrary: acc) (simp_all add: norm_step_relclean)

lemma norm_step_names:
  "0 < k \<Longrightarrow> list_all is_name acc \<Longrightarrow> list_all is_name (norm_step k acc x)"
  unfolding norm_step_def
  by (auto simp: list_all_iff is_name_def dest: in_set_butlastD)

lemma norm_fold_names:
  "0 < k \<Longrightarrow> list_all is_name acc \<Longrightarrow> list_all is_name (foldl (norm_step k) acc xs)"
  by (induction xs arbitrary: acc) (simp_all add: norm_step_names)

lemma norm_step_subset: "set (norm_step k acc x) \<subseteq> insert x (set acc)"
  unfolding norm_step_def by (auto dest: in_set_butlastD)

lemma norm_fold_subset: "set (foldl (norm_step k) acc xs) \<subseteq> set acc \<union> set xs"
proof (induction xs arbitrary: acc)
  case Nil
  then show ?case by simp
next
  case (Cons x xs)
  from Cons [of "norm_step k acc x"] norm_step_subset [of k acc x]
  show ?case by auto
qed

text \<open>On a list in normal form the loop changes nothing.\<close>

lemma norm_fold_names_id:
  "0 < k \<Longrightarrow> list_all is_name xs \<Longrightarrow> foldl (norm_step k) acc xs = acc @ xs"
  by (induction xs arbitrary: acc) (auto simp: norm_step_def is_name_def)

lemma relclean_append_dotdot:
  "relclean (acc @ ''..'' # xs) \<Longrightarrow> \<forall>p \<in> set acc. p = ''..''"
  by (induction acc) (auto simp: list_all_iff split: if_splits)

lemma norm_fold_relclean_id:
  "relclean (acc @ xs) \<Longrightarrow> foldl (norm_step 0) acc xs = acc @ xs"
proof (induction xs arbitrary: acc)
  case Nil
  then show ?case by simp
next
  case (Cons x xs)
  have ne: "x \<noteq> [] \<and> x \<noteq> ''.''"
    using relclean_no_dot [OF Cons.prems, of x] by simp
  have step: "norm_step 0 acc x = acc @ [x]"
  proof (cases "x = ''..''")
    case True
    with Cons.prems have "\<forall>p \<in> set acc. p = ''..''"
      using relclean_append_dotdot by blast
    then have "acc = [] \<or> last acc = ''..''" by (cases acc rule: rev_cases) auto
    with True show ?thesis by (auto simp: norm_step_def)
  next
    case False
    with ne show ?thesis by (simp add: norm_step_def)
  qed
  from Cons.prems have "relclean ((acc @ [x]) @ xs)" by simp
  from Cons.IH [OF this] step show ?case by simp
qed

lemma norm_step_skip: "x = [] \<or> x = ''.'' \<Longrightarrow> norm_step k acc x = acc"
  by (auto simp: norm_step_def)

lemma norm_step_name: "is_name x \<Longrightarrow> norm_step k acc x = acc @ [x]"
  by (auto simp: norm_step_def is_name_def)

lemma norm_step_up_keep:
  "acc = [] \<or> last acc = ''..'' \<Longrightarrow> norm_step 0 acc ''..'' = acc @ [''..'']"
  by (auto simp: norm_step_def)

lemma norm_step_up_pop:
  "acc \<noteq> [] \<Longrightarrow> last acc \<noteq> ''..'' \<Longrightarrow> norm_step k acc ''..'' = butlast acc"
  by (auto simp: norm_step_def)

text \<open>
  Normalizing a relative path first and resolving it against an absolute prefix
  afterwards is the same as resolving the path as it stands.
\<close>

lemma norm_fold_absorb:
  assumes "0 < k"
  shows "foldl (norm_step k) C (foldl (norm_step 0) [] xs) = foldl (norm_step k) C xs"
proof (induction xs rule: rev_induct)
  case Nil
  then show ?case by simp
next
  case (snoc x ys)
  let ?R = "foldl (norm_step 0) [] ys"
  let ?S = "foldl (norm_step k) C ys"
  have R: "relclean ?R" by (simp add: norm_fold_relclean)
  have IH: "foldl (norm_step k) C ?R = ?S" by (rule snoc)
  consider (skip) "x = [] \<or> x = ''.''"
    | (name) "is_name x"
    | (up_keep) "x = ''..''" "?R = [] \<or> last ?R = ''..''"
    | (up_pop) "x = ''..''" "?R \<noteq> []" "last ?R \<noteq> ''..''"
    by (auto simp: is_name_def)
  then show ?case
  proof cases
    case skip
    then have "norm_step 0 ?R x = ?R" "norm_step k ?S x = ?S"
      by (simp_all add: norm_step_skip)
    then show ?thesis using IH by simp
  next
    case name
    then have "norm_step 0 ?R x = ?R @ [x]" by (rule norm_step_name)
    then show ?thesis using IH by simp
  next
    case up_keep
    then have "norm_step 0 ?R x = ?R @ [x]" by (auto simp add: norm_step_up_keep)
    then show ?thesis using IH by simp
  next
    case up_pop
    then have pop: "norm_step 0 ?R x = butlast ?R" by (simp add: norm_step_up_pop)
    from up_pop obtain R' n where Rn: "?R = R' @ [n]" and n: "n \<noteq> ''..''"
      by (cases ?R rule: rev_cases) auto
    from relclean_last_name [OF R] up_pop Rn have nn: "is_name n" by simp
    let ?T = "foldl (norm_step k) C R'"
    from IH Rn have "?S = norm_step k ?T n" by simp
    also from nn have "\<dots> = ?T @ [n]" by (rule norm_step_name)
    finally have S: "?S = ?T @ [n]" .
    have "norm_step k ?S x = ?T"
      using up_pop(1) n unfolding S by (simp add: norm_step_up_pop)
    moreover have "foldl (norm_step k) C (norm_step 0 ?R x) = ?T"
      using pop Rn by simp
    ultimately show ?thesis by simp
  qed
qed

section \<open>normpath is idempotent\<close>


lemma initial_slashes_le: "initial_slashes p = 0 \<or> initial_slashes p = 1 \<or> initial_slashes p = 2"
  by (simp add: initial_slashes_def)

lemma initial_slashes_pos: "0 < initial_slashes p \<longleftrightarrow> isabs p"
  by (simp add: initial_slashes_def isabs_def)

lemma py_join_head:
  assumes "c \<noteq> []"
  shows "py_join sep (c # cs) = hd c # tl (py_join sep (c # cs))"
  using assms by (cases cs; cases c) auto

lemma norm_fold_parts:
  "\<forall>c \<in> set (foldl (norm_step k) [] (split_char CHR ''/'' p)). CHR ''/'' \<notin> set c"
  using norm_fold_subset [of k "[]" "split_char CHR ''/'' p"] split_char_parts by fastforce

text \<open>
  A string rendered from leading slashes and components in normal form is a fixed
  point of \<open>normpath\<close>: it has the same number of leading slashes, and it splits into
  the same components.
\<close>

lemma rendered_components:
  assumes k: "k = 0 \<or> k = 1 \<or> k = 2"
    and clean: "if k = 0 then relclean cs else list_all is_name cs"
    and parts: "\<forall>c \<in> set cs. CHR ''/'' \<notin> set c"
    and ne: "0 < k \<or> cs \<noteq> []"
  shows "replicate k CHR ''/'' @ py_join ''/'' cs \<noteq> []"
    and "initial_slashes (replicate k CHR ''/'' @ py_join ''/'' cs) = k"
    and "foldl (norm_step k) [] (split_char CHR ''/'' (replicate k CHR ''/'' @ py_join ''/'' cs)) = cs"
proof -
  let ?J = "py_join ''/'' cs"
  let ?q = "replicate k CHR ''/'' @ ?J"
  have all3: "?q \<noteq> [] \<and> initial_slashes ?q = k \<and>
      foldl (norm_step k) [] (split_char CHR ''/'' ?q) = cs"
  proof (cases cs)
    case Nil
    with ne k have "k = 1 \<or> k = 2" by auto
    then show ?thesis
    proof
      assume "k = 1"
      with Nil show ?thesis by (simp add: initial_slashes_def norm_step_def)
    next
      assume "k = 2"
      with Nil show ?thesis
        by (simp add: initial_slashes_def norm_step_def numeral_2_eq_2)
    qed
  next
    case (Cons c cs')
    have cne: "c \<noteq> []"
    proof (cases "k = 0")
      case True
      with clean have "relclean cs" by simp
      from relclean_no_dot [OF this, of c] Cons show ?thesis by simp
    next
      case False
      with clean Cons show ?thesis by (auto simp: is_name_def)
    qed
    from parts Cons cne have h: "hd c \<noteq> CHR ''/''" by (cases c) auto
    from py_join_head [OF cne, of "''/''" cs'] Cons
    obtain rest where J: "?J = hd c # rest" by auto
    have sp: "split_char CHR ''/'' ?J = cs"
      using split_py_join [of cs "CHR ''/''"] parts Cons by simp
    from k show ?thesis
    proof (elim disjE)
      assume k0: "k = 0"
      with clean have "relclean ([] @ cs)" by simp
      from norm_fold_relclean_id [OF this] k0 sp J h
      show ?thesis by (simp add: initial_slashes_def)
    next
      assume k1: "k = 1"
      with clean have n: "list_all is_name cs" by simp
      have "foldl (norm_step 1) [] ([] # cs) = cs"
        using norm_fold_names_id [of 1 cs "[]"] n by (simp add: norm_step_skip)
      with k1 sp J h show ?thesis by (simp add: initial_slashes_def)
    next
      assume k2: "k = 2"
      with clean have n: "list_all is_name cs" by simp
      have "foldl (norm_step 2) [] ([] # [] # cs) = cs"
        using norm_fold_names_id [of 2 cs "[]"] n by (simp add: norm_step_skip)
      with k2 sp J h show ?thesis by (simp add: initial_slashes_def numeral_2_eq_2)
    qed
  qed
  from all3 show "?q \<noteq> []" by blast
  from all3 show "initial_slashes ?q = k" by blast
  from all3 show "foldl (norm_step k) [] (split_char CHR ''/'' ?q) = cs" by blast
qed

lemma normpath_rendered:
  assumes "k = 0 \<or> k = 1 \<or> k = 2"
    and "if k = 0 then relclean cs else list_all is_name cs"
    and "\<forall>c \<in> set cs. CHR ''/'' \<notin> set c"
    and "0 < k \<or> cs \<noteq> []"
  shows "normpath (replicate k CHR ''/'' @ py_join ''/'' cs) = replicate k CHR ''/'' @ py_join ''/'' cs"
  using rendered_components [OF assms] by (simp add: normpath_def Let_def)

lemma normpath_dot: "normpath ''.'' = ''.''"
  by (simp add: normpath_def initial_slashes_def norm_step_def)

lemma norm_fold_clean:
  "if k = 0 then relclean (foldl (norm_step k) [] xs)
   else list_all is_name (foldl (norm_step k) [] xs)"
  by (simp add: norm_fold_relclean norm_fold_names)

text \<open>What \<open>normpath\<close> returns, in terms of the components the loop leaves.\<close>

lemma normpath_cases:
  assumes "p \<noteq> []"
  shows "normpath p =
     (if initial_slashes p = 0 \<and> foldl (norm_step 0) [] (split_char CHR ''/'' p) = []
      then ''.''
      else replicate (initial_slashes p) CHR ''/'' @
             py_join ''/'' (foldl (norm_step (initial_slashes p)) [] (split_char CHR ''/'' p)))"
proof -
  let ?k = "initial_slashes p"
  let ?cs = "foldl (norm_step ?k) [] (split_char CHR ''/'' p)"
  show ?thesis
  proof (cases "?k = 0 \<and> ?cs = []")
    case True
    then have k0: "initial_slashes p = 0" by simp
    with True have c0: "foldl (norm_step 0) [] (split_char CHR ''/'' p) = []" by simp
    with assms k0 show ?thesis by (simp add: normpath_def Let_def)
  next
    case False
    then have "0 < ?k \<or> ?cs \<noteq> []" by auto
    from rendered_components(1) [OF initial_slashes_le norm_fold_clean norm_fold_parts this]
    have "replicate ?k CHR ''/'' @ py_join ''/'' ?cs \<noteq> []" .
    with assms False show ?thesis by (auto simp add: normpath_def Let_def)
  qed
qed

lemma normpath_idem: "normpath (normpath p) = normpath p"
proof (cases "p = []")
  case True
  then show ?thesis by (simp add: normpath_def [of "[]"] normpath_dot)
next
  case False
  let ?k = "initial_slashes p"
  let ?cs = "foldl (norm_step ?k) [] (split_char CHR ''/'' p)"
  show ?thesis
  proof (cases "?k = 0 \<and> ?cs = []")
    case True
    then have k0: "initial_slashes p = 0" by simp
    with True have c0: "foldl (norm_step 0) [] (split_char CHR ''/'' p) = []" by simp
    with normpath_cases [OF False] k0 have "normpath p = ''.''" by simp
    then show ?thesis by (simp add: normpath_dot)
  next
    case F: False
    then have ne: "0 < ?k \<or> ?cs \<noteq> []" by auto
    from normpath_cases [OF False] F
    have "normpath p = replicate ?k CHR ''/'' @ py_join ''/'' ?cs" by auto
    moreover have "normpath (replicate ?k CHR ''/'' @ py_join ''/'' ?cs) =
        replicate ?k CHR ''/'' @ py_join ''/'' ?cs"
      by (rule normpath_rendered [OF initial_slashes_le norm_fold_clean norm_fold_parts ne])
    ultimately show ?thesis by simp
  qed
qed

lemma normpath_isabs: "isabs p \<Longrightarrow> isabs (normpath p)"
proof -
  assume a: "isabs p"
  then have ne: "p \<noteq> []" by (auto simp: isabs_def)
  from a have "0 < initial_slashes p" by (simp add: initial_slashes_pos)
  then obtain j where "initial_slashes p = Suc j" by (cases "initial_slashes p") auto
  with normpath_cases [OF ne] show ?thesis by (simp add: isabs_def)
qed

lemma normpath_not_isabs: "\<not> isabs p \<Longrightarrow> \<not> isabs (normpath p)"
proof (cases "p = []")
  case True
  then show ?thesis by (simp add: normpath_def isabs_def)
next
  case False
  assume a: "\<not> isabs p"
  then have k: "initial_slashes p = 0" using initial_slashes_pos [of p] by simp
  let ?cs = "foldl (norm_step 0) [] (split_char CHR ''/'' p)"
  show ?thesis
  proof (cases "?cs = []")
    case True
    with normpath_cases [OF False] k show ?thesis by (simp add: isabs_def)
  next
    case F: False
    then obtain c cs' where cs: "?cs = c # cs'" by (cases ?cs) auto
    have "relclean ?cs" by (simp add: norm_fold_relclean)
    from relclean_no_dot [OF this, of c] cs have cne: "c \<noteq> []" by simp
    from norm_fold_parts [of 0 p] cs cne have h: "hd c \<noteq> CHR ''/''" by (cases c) auto
    from py_join_head [OF cne, of "''/''" cs'] cs
    obtain rest where "py_join ''/'' ?cs = hd c # rest" by auto
    with normpath_cases [OF False] k F h show ?thesis by (simp add: isabs_def)
  qed
qed

section \<open>Lock keys of one directory\<close>


lemma isabs_Cons: "isabs p \<longleftrightarrow> (\<exists>t. p = CHR ''/'' # t)"
  by (cases p) (auto simp: isabs_def)

lemma path_join_isabs: "isabs cwd \<Longrightarrow> isabs (path_join cwd x)"
proof -
  assume "isabs cwd"
  then obtain t where "cwd = CHR ''/'' # t" by (auto simp: isabs_Cons)
  then show ?thesis by (simp add: path_join_def isabs_def)
qed

lemma abspath_isabs: "isabs cwd \<Longrightarrow> isabs (abspath cwd x)"
  by (simp add: abspath_def normpath_isabs path_join_isabs)

lemma abspath_normal: "isabs cwd \<Longrightarrow> normpath (abspath cwd x) = abspath cwd x"
  by (simp add: abspath_def normpath_idem)

text \<open>A path that \<open>abspath\<close> returned is its own lock key.\<close>

lemma lock_key_abspath:
  assumes "isabs cwd"
  shows "lock_key cwd (abspath cwd x) = abspath cwd x"
proof -
  have "isabs (normpath (abspath cwd x))"
    using assms by (simp add: abspath_normal abspath_isabs)
  then have "lock_key cwd (abspath cwd x) = normpath (normpath (abspath cwd x))"
    by (simp add: lock_key_def abspath_def)
  then show ?thesis using assms by (simp add: abspath_normal)
qed

text \<open>
  Joining a relative path to an absolute directory: the joined string is the
  directory, cut of a slash at its end, then a slash, then the path.
\<close>

lemma path_join_relative:
  assumes "isabs cwd" and "\<not> isabs r"
  shows "path_join cwd r = (if last cwd = CHR ''/'' then butlast cwd else cwd) @ CHR ''/'' # r"
proof -
  from assms(1) have ne: "cwd \<noteq> []" by (auto simp: isabs_def)
  show ?thesis
  proof (cases "last cwd = CHR ''/''")
    case True
    with ne have "cwd = butlast cwd @ ''/''" by (metis append_butlast_last_id)
    then have "cwd @ r = butlast cwd @ CHR ''/'' # r" by (metis append_Cons append_Nil append_assoc)
    with assms True ne show ?thesis by (simp add: path_join_def isabs_def)
  next
    case False
    with assms ne show ?thesis by (simp add: path_join_def isabs_def)
  qed
qed

lemma initial_slashes_prefix:
  assumes "\<not> isabs r" and "\<not> isabs r'"
  shows "initial_slashes (base @ CHR ''/'' # r) = initial_slashes (base @ CHR ''/'' # r')"
proof -
  have rel: "\<And>t. \<not> isabs t \<Longrightarrow> \<not> startswith t ''/''" by (simp add: isabs_def)
  note r = rel [OF assms(1)] rel [OF assms(2)]
  show ?thesis
  proof (cases base)
    case Nil
    with r show ?thesis by (simp add: initial_slashes_def)
  next
    case (Cons a b1)
    note A = Cons
    show ?thesis
    proof (cases b1)
      case Nil
      with A r show ?thesis by (simp add: initial_slashes_def)
    next
      case (Cons b b2)
      note B = Cons
      show ?thesis
      proof (cases b2)
        case Nil
        with A B r show ?thesis by (simp add: initial_slashes_def)
      next
        case (Cons c b3)
        with A B show ?thesis by (simp add: initial_slashes_def)
      qed
    qed
  qed
qed

lemma normpath_absolute:
  assumes "isabs p"
  shows "normpath p = replicate (initial_slashes p) CHR ''/'' @
           py_join ''/'' (foldl (norm_step (initial_slashes p)) [] (split_char CHR ''/'' p))"
proof -
  from assms have "p \<noteq> []" by (auto simp: isabs_def)
  moreover from assms have "initial_slashes p \<noteq> 0" using initial_slashes_pos [of p] by simp
  ultimately show ?thesis using normpath_cases [of p] by simp
qed

text \<open>
  Under an absolute prefix, the components of a relative path and of its normal form
  resolve alike.
\<close>

lemma fold_normpath_relative:
  assumes "0 < k" and "\<not> isabs p"
  shows "foldl (norm_step k) C (split_char CHR ''/'' (normpath p)) =
         foldl (norm_step k) C (split_char CHR ''/'' p)"
proof (cases "p = []")
  case True
  then show ?thesis by (simp add: normpath_def norm_step_skip)
next
  case False
  from assms(2) have k0: "initial_slashes p = 0" using initial_slashes_pos [of p] by simp
  let ?cs = "foldl (norm_step 0) [] (split_char CHR ''/'' p)"
  have absorb: "foldl (norm_step k) C ?cs = foldl (norm_step k) C (split_char CHR ''/'' p)"
    by (rule norm_fold_absorb [OF assms(1)])
  show ?thesis
  proof (cases "?cs = []")
    case True
    with normpath_cases [OF False] k0 have "normpath p = ''.''" by simp
    then have "foldl (norm_step k) C (split_char CHR ''/'' (normpath p)) = C"
      by (simp add: norm_step_skip)
    with absorb True show ?thesis by simp
  next
    case F: False
    with normpath_cases [OF False] k0 have n: "normpath p = py_join ''/'' ?cs" by simp
    have "split_char CHR ''/'' (py_join ''/'' ?cs) = ?cs"
      using split_py_join [of ?cs "CHR ''/''"] F norm_fold_parts [of 0 p] by simp
    with n absorb show ?thesis by simp
  qed
qed

lemma normpath_join_normpath:
  assumes cwd: "isabs cwd" and rel: "\<not> isabs p"
  shows "normpath (path_join cwd (normpath p)) = normpath (path_join cwd p)"
proof -
  let ?base = "if last cwd = CHR ''/'' then butlast cwd else cwd"
  let ?q = "normpath p"
  from rel have relq: "\<not> isabs ?q" by (rule normpath_not_isabs)
  have jp: "path_join cwd p = ?base @ CHR ''/'' # p" by (rule path_join_relative [OF cwd rel])
  have jq: "path_join cwd ?q = ?base @ CHR ''/'' # ?q" by (rule path_join_relative [OF cwd relq])
  let ?k = "initial_slashes (path_join cwd p)"
  have k: "initial_slashes (path_join cwd ?q) = ?k"
    unfolding jp jq by (rule initial_slashes_prefix [OF relq rel])
  have kpos: "0 < ?k" using path_join_isabs [OF cwd, of p] by (simp add: initial_slashes_pos)
  have "foldl (norm_step ?k) [] (split_char CHR ''/'' (path_join cwd ?q)) =
        foldl (norm_step ?k) [] (split_char CHR ''/'' (path_join cwd p))"
    unfolding jp jq split_char_append foldl_append
    by (rule fold_normpath_relative [OF kpos [unfolded jp] rel])
  then show ?thesis
    using normpath_absolute [OF path_join_isabs [OF cwd], of p]
      normpath_absolute [OF path_join_isabs [OF cwd], of ?q] k
    by simp
qed

text \<open>A relative path and its absolute form have the same lock key.\<close>

lemma lock_key_relative:
  assumes "isabs cwd" and "\<not> isabs p"
  shows "lock_key cwd p = lock_key cwd (path_join cwd p)"
proof -
  have "lock_key cwd p = normpath (path_join cwd (normpath p))"
    using normpath_not_isabs [OF assms(2)] by (simp add: lock_key_def abspath_def)
  also have "\<dots> = normpath (path_join cwd p)"
    by (rule normpath_join_normpath [OF assms])
  also have "\<dots> = lock_key cwd (path_join cwd p)"
    using normpath_isabs [OF path_join_isabs [OF assms(1)], of p]
    by (simp add: lock_key_def abspath_def normpath_idem)
  finally show ?thesis .
qed

section \<open>The directory name survives normalization\<close>


lemma last_split_append:
  "last (split_char c (a @ c # s)) = last (split_char c s)"
  by (simp add: split_char_append)

lemma last_split_name: "c \<notin> set d \<Longrightarrow> last (split_char c d) = d"
  by (simp add: split_char_no_sep)

lemma last_split_path_join:
  assumes "\<not> isabs s"
  shows "last (split_char CHR ''/'' (path_join a s)) = last (split_char CHR ''/'' s)"
proof (cases "a = []")
  case True
  with assms show ?thesis by (simp add: path_join_def isabs_def)
next
  case False
  show ?thesis
  proof (cases "last a = CHR ''/''")
    case True
    with False have "a = butlast a @ ''/''" by (metis append_butlast_last_id)
    then have e: "a @ s = butlast a @ CHR ''/'' # s"
      by (metis append_Cons append_Nil append_assoc)
    from assms True False have "path_join a s = a @ s"
      by (simp add: path_join_def isabs_def)
    then have "last (split_char CHR ''/'' (path_join a s)) =
        last (split_char CHR ''/'' (butlast a @ CHR ''/'' # s))" by (simp only: e)
    also have "\<dots> = last (split_char CHR ''/'' s)" by (rule last_split_append)
    finally show ?thesis .
  next
    case F: False
    with assms False show ?thesis
      by (simp add: path_join_def isabs_def last_split_append)
  qed
qed

text \<open>\<open>normpath\<close> keeps a last component that is a name.\<close>

lemma last_split_normpath:
  assumes name: "is_name d" and d: "last (split_char CHR ''/'' s) = d"
  shows "last (split_char CHR ''/'' (normpath s)) = d"
proof -
  let ?k = "initial_slashes s"
  have sl: "CHR ''/'' \<notin> set d"
    using split_char_parts [of d "CHR ''/''" s] d split_char_nonempty [of "CHR ''/''" s]
    by (metis last_in_set)
  have ne: "s \<noteq> []" using name d by (auto simp: is_name_def)
  obtain xs where xs: "split_char CHR ''/'' s = xs @ [d]"
    using d split_char_nonempty [of "CHR ''/''" s] by (metis append_butlast_last_id)
  let ?ys = "foldl (norm_step ?k) [] xs"
  have cs: "foldl (norm_step ?k) [] (split_char CHR ''/'' s) = ?ys @ [d]"
    unfolding xs by (simp add: norm_step_name [OF name])
  have cs0: "?k = 0 \<Longrightarrow> foldl (norm_step 0) [] (split_char CHR ''/'' s) \<noteq> []"
    using cs by simp
  from normpath_cases [OF ne] cs cs0
  have n: "normpath s = replicate ?k CHR ''/'' @ py_join ''/'' (?ys @ [d])" by auto
  show ?thesis
  proof (cases "?ys = []")
    case True
    then have j: "normpath s = replicate ?k CHR ''/'' @ d" using n by simp
    show ?thesis
    proof (cases ?k)
      case 0
      with j sl show ?thesis by (simp add: last_split_name)
    next
      case (Suc j')
      then have "replicate ?k CHR ''/'' @ d = replicate j' CHR ''/'' @ CHR ''/'' # d"
        by (simp add: replicate_app_Cons_same)
      with j sl show ?thesis by (simp add: last_split_append last_split_name)
    qed
  next
    case False
    then have "py_join ''/'' (?ys @ [d]) = py_join ''/'' ?ys @ ''/'' @ d"
      by (rule py_join_snoc)
    with n have "normpath s = (replicate ?k CHR ''/'' @ py_join ''/'' ?ys) @ CHR ''/'' # d"
      by simp
    then have "last (split_char CHR ''/'' (normpath s)) =
        last (split_char CHR ''/'' ((replicate ?k CHR ''/'' @ py_join ''/'' ?ys) @ CHR ''/'' # d))"
      by (rule arg_cong)
    also have "\<dots> = last (split_char CHR ''/'' d)" by (rule last_split_append)
    also have "\<dots> = d" by (rule last_split_name [OF sl])
    finally show ?thesis .
  qed
qed

lemma last_split_abspath:
  assumes "is_name d" and "last (split_char CHR ''/'' s) = d"
  shows "last (split_char CHR ''/'' (abspath cwd s)) = d"
proof (cases "isabs s")
  case True
  with assms show ?thesis by (simp add: abspath_def last_split_normpath)
next
  case False
  then have "last (split_char CHR ''/'' (path_join cwd s)) = d"
    using assms(2) by (simp add: last_split_path_join)
  with False assms(1) show ?thesis by (simp add: abspath_def last_split_normpath)
qed

lemma long_is_name: "3 \<le> length d \<Longrightarrow> is_name d"
  by (auto simp: is_name_def)

text \<open>The directory name of the identifier of a pair of slash-free segments.\<close>

lemma replace_char_append:
  "replace_char a b (s @ t) = replace_char a b s @ replace_char a b t"
  by (simp add: replace_char_def)

lemma replace_char_absent: "a \<notin> set s \<Longrightarrow> replace_char a b s = s"
  by (induction s) (auto simp: replace_char_def)

lemma replace_char_Cons:
  "replace_char a b (x # s) = (if x = a then b else [x]) @ replace_char a b s"
  by (simp add: replace_char_def)

lemma dirname_of_pair:
  assumes "CHR ''/'' \<notin> set owner" and "CHR ''/'' \<notin> set repo"
  shows "repo_rid_to_dirname (owner_repo_to_repo_rid owner repo) =
           Inr (owner @ ''__'' @ repo @ ''.git'')"
proof -
  have "replace_char CHR ''/'' ''__'' (owner @ ''/'' @ repo) = owner @ ''__'' @ repo"
    using assms by (simp add: replace_char_append replace_char_Cons replace_char_absent)
  then show ?thesis
    by (simp add: repo_rid_to_dirname_def owner_repo_to_repo_rid_def split_once_prefix
        del: append.simps)
qed

lemma dirname_is_name:
  assumes "CHR ''/'' \<notin> set owner" and "CHR ''/'' \<notin> set repo"
  shows "is_name (owner @ ''__'' @ repo @ ''.git'')"
    and "CHR ''/'' \<notin> set (owner @ ''__'' @ repo @ ''.git'')"
    and "\<not> isabs (owner @ ''__'' @ repo @ ''.git'')"
proof -
  let ?d = "owner @ ''__'' @ repo @ ''.git''"
  have "length ?d \<ge> 3" by simp
  then show "is_name ?d" by (rule long_is_name)
  show "CHR ''/'' \<notin> set ?d" using assms by simp
  then show "\<not> isabs ?d" by (cases owner) (auto simp: isabs_def)
qed

lemma get_repo_dir_of_pair:
  assumes "CHR ''/'' \<notin> set owner" and "CHR ''/'' \<notin> set repo"
  shows "\<exists>k. get_repo_dir cwd base (owner_repo_to_repo_rid owner repo) = Inr k \<and>
             last (split_char CHR ''/'' k) = owner @ ''__'' @ repo @ ''.git''"
proof -
  let ?d = "owner @ ''__'' @ repo @ ''.git''"
  note n = dirname_is_name [OF assms]
  have "last (split_char CHR ''/'' (path_join base ?d)) = last (split_char CHR ''/'' ?d)"
    by (rule last_split_path_join [OF n(3)])
  also have "\<dots> = ?d" by (rule last_split_name [OF n(2)])
  finally have "last (split_char CHR ''/'' (path_join base ?d)) = ?d" .
  then have "last (split_char CHR ''/'' (normpath (path_join base ?d))) = ?d"
    by (rule last_split_normpath [OF n(1)])
  then have "last (split_char CHR ''/'' (abspath cwd (normpath (path_join base ?d)))) = ?d"
    by (rule last_split_abspath [OF n(1)])
  moreover have "startswith (owner_repo_to_repo_rid owner repo) rid_prefix"
    by (simp add: owner_repo_to_repo_rid_def)
  ultimately show ?thesis
    by (simp only: get_repo_dir_def dirname_of_pair [OF assms]) simp
qed

lemma underscore_cut:
  assumes "CHR ''_'' \<notin> set a" and "CHR ''_'' \<notin> set b"
    and "a @ CHR ''_'' # x = b @ CHR ''_'' # y"
  shows "a = b \<and> x = y"
proof -
  have "takeWhile (\<lambda>c. c \<noteq> CHR ''_'') (a @ CHR ''_'' # x) = a"
    using assms(1) by (auto simp add: takeWhile_tail)
  moreover have "takeWhile (\<lambda>c. c \<noteq> CHR ''_'') (b @ CHR ''_'' # y) = b"
    using assms(2) by (auto simp add: takeWhile_tail)
  ultimately have "a = b" using assms(3) by simp
  with assms(3) show ?thesis by simp
qed

lemma get_repo_dir_injective:
  assumes o: "CHR ''/'' \<notin> set owner" "CHR ''_'' \<notin> set owner" and r: "CHR ''/'' \<notin> set repo"
    and o': "CHR ''/'' \<notin> set owner'" "CHR ''_'' \<notin> set owner'" and r': "CHR ''/'' \<notin> set repo'"
    and eq: "get_repo_dir cwd base (owner_repo_to_repo_rid owner repo) =
             get_repo_dir cwd base (owner_repo_to_repo_rid owner' repo')"
  shows "owner = owner' \<and> repo = repo'"
proof -
  from get_repo_dir_of_pair [OF o(1) r, of cwd base] get_repo_dir_of_pair [OF o'(1) r', of cwd base] eq
  have "owner @ ''__'' @ repo @ ''.git'' = owner' @ ''__'' @ repo' @ ''.git''" by auto
  then have "owner @ CHR ''_'' # (CHR ''_'' # repo @ ''.git'') =
             owner' @ CHR ''_'' # (CHR ''_'' # repo' @ ''.git'')" by simp
  from underscore_cut [OF o(2) o'(2) this] show ?thesis by simp
qed

section \<open>The lock key of an identifier\<close>


text \<open>
  Claim C8, as the spec states it, makes the lock key one-to-one on identifiers.
  Replacing \<open>/\<close> by \<open>__\<close> loses where the cut was when an underscore stands next to
  it: two identifiers that decode to different (owner, repo) pairs get the same
  directory, and so the same lock key.
\<close>

theorem lock_key_collision_counterexample:
  "repo_rid_to_owner_repo ''orn:github.repo:acme/_widgets'' = Inr (''acme'', ''_widgets'') \<and>
   repo_rid_to_owner_repo ''orn:github.repo:acme_/widgets'' = Inr (''acme_'', ''widgets'') \<and>
   get_repo_dir ''/srv/app'' ''data/repos'' ''orn:github.repo:acme/_widgets'' =
     Inr ''/srv/app/data/repos/acme___widgets.git'' \<and>
   get_repo_dir ''/srv/app'' ''data/repos'' ''orn:github.repo:acme_/widgets'' =
     Inr ''/srv/app/data/repos/acme___widgets.git'' \<and>
   lock_key ''/srv/app'' ''/srv/app/data/repos/acme___widgets.git'' =
     ''/srv/app/data/repos/acme___widgets.git''"
  by code_simp

text \<open>
  Claim C8, amended. The lock key is stable: a directory that \<open>get_repo_dir\<close> returned
  is its own key (normalizing again changes nothing), and a relative path and its
  absolute form have the same key. It is one-to-one on the identifiers of (owner,
  repo) pairs whose owner holds neither \<open>/\<close> nor \<open>_\<close> and whose repo holds no \<open>/\<close>:
  two such identifiers with equal keys are the same pair. The working directory is
  an absolute path.
\<close>

theorem lock_key_derivation:
  assumes "isabs cwd"
  shows "(CHR ''/'' \<notin> set owner \<and> CHR ''_'' \<notin> set owner \<and> CHR ''/'' \<notin> set repo \<and>
          CHR ''/'' \<notin> set owner' \<and> CHR ''_'' \<notin> set owner' \<and> CHR ''/'' \<notin> set repo' \<and>
          get_repo_dir cwd base_path (owner_repo_to_repo_rid owner repo) = Inr dir \<and>
          get_repo_dir cwd base_path (owner_repo_to_repo_rid owner' repo') = Inr dir' \<and>
          lock_key cwd dir = lock_key cwd dir' \<longrightarrow>
            owner = owner' \<and> repo = repo') \<and>
         (get_repo_dir cwd base_path repo_rid = Inr dir \<longrightarrow> lock_key cwd dir = dir) \<and>
         (\<not> isabs path \<longrightarrow> lock_key cwd path = lock_key cwd (path_join cwd path))"
proof (intro conjI impI)
  have own: "lock_key cwd d = d" if "get_repo_dir cwd base_path r = Inr d" for r d
  proof -
    from that obtain x where "d = abspath cwd x"
      by (auto simp: get_repo_dir_def split: if_splits sum.splits)
    with assms show ?thesis by (simp add: lock_key_abspath)
  qed
  {
    assume "get_repo_dir cwd base_path repo_rid = Inr dir"
    then show "lock_key cwd dir = dir" by (rule own)
  }
  {
    assume "\<not> isabs path"
    with assms show "lock_key cwd path = lock_key cwd (path_join cwd path)"
      by (rule lock_key_relative)
  }
  assume a: "CHR ''/'' \<notin> set owner \<and> CHR ''_'' \<notin> set owner \<and> CHR ''/'' \<notin> set repo \<and>
          CHR ''/'' \<notin> set owner' \<and> CHR ''_'' \<notin> set owner' \<and> CHR ''/'' \<notin> set repo' \<and>
          get_repo_dir cwd base_path (owner_repo_to_repo_rid owner repo) = Inr dir \<and>
          get_repo_dir cwd base_path (owner_repo_to_repo_rid owner' repo') = Inr dir' \<and>
          lock_key cwd dir = lock_key cwd dir'"
  then have "lock_key cwd dir = dir" "lock_key cwd dir' = dir'" using own by blast+
  with a have "get_repo_dir cwd base_path (owner_repo_to_repo_rid owner repo) =
      get_repo_dir cwd base_path (owner_repo_to_repo_rid owner' repo')" by simp
  with a have "owner = owner' \<and> repo = repo'"
    using get_repo_dir_injective [of owner repo owner' repo' cwd base_path] by blast
  then show "owner = owner'" "repo = repo'" by simp_all
qed

lemma example_dirs:
  "get_repo_dir ''/srv/app'' ''data/repos'' (owner_repo_to_repo_rid ''acme'' ''widgets'') =
     Inr ''/srv/app/data/repos/acme__widgets.git''"
  "get_repo_dir ''/srv/app'' ''data/repos'' (owner_repo_to_repo_rid ''acme'' ''gadgets'') =
     Inr ''/srv/app/data/repos/acme__gadgets.git''"
  "path_join ''/srv/app'' ''data/repos/acme__widgets.git'' =
     ''/srv/app/data/repos/acme__widgets.git''"
  by code_simp+

theorem lock_key_derivation_witness:
  "isabs ''/srv/app'' \<and>
   lock_key ''/srv/app'' ''/srv/app/data/repos/acme__widgets.git'' \<noteq>
     lock_key ''/srv/app'' ''/srv/app/data/repos/acme__gadgets.git'' \<and>
   lock_key ''/srv/app'' ''/srv/app/data/repos/acme__widgets.git'' =
     ''/srv/app/data/repos/acme__widgets.git'' \<and>
   lock_key ''/srv/app'' ''data/repos/acme__widgets.git'' =
     lock_key ''/srv/app'' ''/srv/app/data/repos/acme__widgets.git''"
proof -
  have c: "isabs ''/srv/app''" by (simp add: isabs_def)
  have r: "\<not> isabs ''data/repos/acme__widgets.git''" by (simp add: isabs_def)
  have v: "CHR ''/'' \<notin> set ''acme''" "CHR ''_'' \<notin> set ''acme''"
    "CHR ''/'' \<notin> set ''widgets''" "CHR ''/'' \<notin> set ''gadgets''" by simp_all
  have d: "''widgets'' \<noteq> ''gadgets''" by simp
  note t = lock_key_derivation [OF c, where base_path = "''data/repos''"]
  from t [where owner = "''acme''" and repo = "''widgets''" and owner' = "''acme''"
      and repo' = "''gadgets''" and dir = "''/srv/app/data/repos/acme__widgets.git''"
      and dir' = "''/srv/app/data/repos/acme__gadgets.git''", THEN conjunct1]
    v d example_dirs(1,2)
  have 1: "lock_key ''/srv/app'' ''/srv/app/data/repos/acme__widgets.git'' \<noteq>
     lock_key ''/srv/app'' ''/srv/app/data/repos/acme__gadgets.git''" by blast
  from t [where repo_rid = "owner_repo_to_repo_rid ''acme'' ''widgets''"
      and dir = "''/srv/app/data/repos/acme__widgets.git''", THEN conjunct2, THEN conjunct1]
    example_dirs(1)
  have 2: "lock_key ''/srv/app'' ''/srv/app/data/repos/acme__widgets.git'' =
     ''/srv/app/data/repos/acme__widgets.git''" by blast
  from t [where path = "''data/repos/acme__widgets.git''", THEN conjunct2, THEN conjunct2] r
  have "lock_key ''/srv/app'' ''data/repos/acme__widgets.git'' =
     lock_key ''/srv/app'' (path_join ''/srv/app'' ''data/repos/acme__widgets.git'')" by blast
  then have 3: "lock_key ''/srv/app'' ''data/repos/acme__widgets.git'' =
     lock_key ''/srv/app'' ''/srv/app/data/repos/acme__widgets.git''"
    by (simp only: example_dirs(3))
  from c 1 2 3 show ?thesis by blast
qed

section \<open>Calls under the lock\<close>

lemma lock_inv_cong:
  assumes "tasks s' = tasks s" and "locked s' = locked s" and "waiters s' = waiters s"
  shows "lock_inv s' = lock_inv s"
  using assms by (simp add: lock_inv_def)

lemma lock_invI:
  assumes "\<And>i b k l c. tasks s i = Holding b k l c \<Longrightarrow> locked s l"
    and "\<And>i j b k l c b' k' c'.
           tasks s i = Holding b k l c \<Longrightarrow> tasks s j = Holding b' k' l c' \<Longrightarrow> i = j"
    and "\<And>l. locked s l \<Longrightarrow> \<exists>i b k c. tasks s i = Holding b k l c"
    and "\<And>l. distinct (waiters s l)"
    and "\<And>l i. i \<in> set (waiters s l) \<longleftrightarrow> (\<exists>k w c. tasks s i = Waiting k l w c)"
    and "\<And>i k l w c. tasks s i = Waiting k l w c \<Longrightarrow> w = Woken \<or> w = Woken_cancelled \<Longrightarrow>
           \<not> locked s l \<and> (\<exists>rest. waiters s l = i # rest)"
  shows "lock_inv s"
  unfolding lock_inv_def
proof (intro conjI allI impI)
  fix i b k l c assume "tasks s i = Holding b k l c"
  then show "locked s l" by (rule assms(1))
next
  fix i j b k l c b' k' c'
  assume "tasks s i = Holding b k l c \<and> tasks s j = Holding b' k' l c'"
  then show "i = j" using assms(2) [of i b k l c j b' k' c'] by simp
next
  fix l assume "locked s l"
  then show "\<exists>i b k c. tasks s i = Holding b k l c" by (rule assms(3))
next
  fix l show "distinct (waiters s l)" by (rule assms(4))
next
  fix l i show "i \<in> set (waiters s l) \<longleftrightarrow> (\<exists>k w c. tasks s i = Waiting k l w c)"
    by (rule assms(5))
next
  fix i k l w c
  assume a: "tasks s i = Waiting k l w c \<and> (w = Woken \<or> w = Woken_cancelled)"
  from assms(6) [of i k l w c] a show "\<not> locked s l" by simp
  from assms(6) [of i k l w c] a show "\<exists>rest. waiters s l = i # rest" by simp
qed

lemma lock_inv_parts:
  "lock_inv s \<Longrightarrow>
     (\<forall>i b k l c. tasks s i = Holding b k l c \<longrightarrow> locked s l) \<and>
     (\<forall>i j b k l c b' k' c'.
        tasks s i = Holding b k l c \<and> tasks s j = Holding b' k' l c' \<longrightarrow> i = j) \<and>
     (\<forall>l. locked s l \<longrightarrow> (\<exists>i b k c. tasks s i = Holding b k l c)) \<and>
     (\<forall>l. distinct (waiters s l)) \<and>
     (\<forall>l i. i \<in> set (waiters s l) \<longleftrightarrow> (\<exists>k w c. tasks s i = Waiting k l w c)) \<and>
     (\<forall>i k l w c. tasks s i = Waiting k l w c \<and> (w = Woken \<or> w = Woken_cancelled) \<longrightarrow>
        \<not> locked s l \<and> (\<exists>rest. waiters s l = i # rest))"
  unfolding lock_inv_def by assumption

lemma held_locked: "lock_inv s \<Longrightarrow> tasks s i = Holding b k l c \<Longrightarrow> locked s l"
  using lock_inv_parts [THEN conjunct1] by blast

lemma one_holder:
  "lock_inv s \<Longrightarrow> tasks s i = Holding b k l c \<Longrightarrow> tasks s j = Holding b' k' l c' \<Longrightarrow> i = j"
  using lock_inv_parts [THEN conjunct2, THEN conjunct1] by blast

lemma locked_held: "lock_inv s \<Longrightarrow> locked s l \<Longrightarrow> \<exists>i b k c. tasks s i = Holding b k l c"
  using lock_inv_parts [THEN conjunct2, THEN conjunct2, THEN conjunct1] by blast

lemma queue_distinct: "lock_inv s \<Longrightarrow> distinct (waiters s l)"
  using lock_inv_parts [THEN conjunct2, THEN conjunct2, THEN conjunct2, THEN conjunct1] by blast

lemma queue_members:
  "lock_inv s \<Longrightarrow> i \<in> set (waiters s l) \<longleftrightarrow> (\<exists>k w c. tasks s i = Waiting k l w c)"
  using lock_inv_parts [THEN conjunct2, THEN conjunct2, THEN conjunct2, THEN conjunct2,
      THEN conjunct1] by blast

lemma woken_first:
  "lock_inv s \<Longrightarrow> tasks s i = Waiting k l w c \<Longrightarrow> w = Woken \<or> w = Woken_cancelled \<Longrightarrow>
     \<not> locked s l \<and> (\<exists>rest. waiters s l = i # rest)"
  using lock_inv_parts [THEN conjunct2, THEN conjunct2, THEN conjunct2, THEN conjunct2,
      THEN conjunct2] by blast

text \<open>A call that neither waits nor is inside changes to another such call.\<close>

lemma inv_idle:
  assumes inv: "lock_inv s"
    and old: "inside (tasks s i) = None" "waiting_for (tasks s i) = None"
    and new: "inside t = None" "waiting_for t = None"
    and s': "tasks s' = (tasks s)(i := t)" "locked s' = locked s" "waiters s' = waiters s"
  shows "lock_inv s'"
proof -
  have a: "\<And>b k l c. tasks s i \<noteq> Holding b k l c" "\<And>k l w c. tasks s i \<noteq> Waiting k l w c"
    using old by (auto simp: inside_def waiting_for_def)
  have b: "\<And>b k l c. t \<noteq> Holding b k l c" "\<And>k l w c. t \<noteq> Waiting k l w c"
    using new by (auto simp: inside_def waiting_for_def)
  show ?thesis
  proof (rule lock_invI)
    fix j b k l c assume "tasks s' j = Holding b k l c"
    then show "locked s' l" using held_locked [OF inv] b(1) [of b k l c]
      by (auto simp: s' split: if_splits)
  next
    fix j j' b k l c b' k' c'
    assume "tasks s' j = Holding b k l c" "tasks s' j' = Holding b' k' l c'"
    then show "j = j'" using one_holder [OF inv] b(1) [of b k l c] b(1) [of b' k' l c']
      by (auto simp: s' split: if_splits)
  next
    fix l assume "locked s' l"
    then obtain j b k c where j: "tasks s j = Holding b k l c"
      using locked_held [OF inv, of l] by (auto simp: s')
    with a have "j \<noteq> i" by auto
    with j show "\<exists>i b k c. tasks s' i = Holding b k l c" by (auto simp: s')
  next
    fix l show "distinct (waiters s' l)" using queue_distinct [OF inv] by (simp add: s')
  next
    fix l j show "j \<in> set (waiters s' l) \<longleftrightarrow> (\<exists>k w c. tasks s' j = Waiting k l w c)"
      using queue_members [OF inv, of j l] a b by (auto simp: s')
  next
    fix j k l w c assume "tasks s' j = Waiting k l w c" "w = Woken \<or> w = Woken_cancelled"
    then show "\<not> locked s' l \<and> (\<exists>rest. waiters s' l = j # rest)"
      using woken_first [OF inv, of j k l w c] b(2) [of k l w c]
      by (auto simp: s' split: if_splits)
  qed
qed

text \<open>A call inside stays inside the same lock.\<close>

lemma inv_stay:
  assumes inv: "lock_inv s" and old: "tasks s i = Holding b k l c"
    and s': "tasks s' = (tasks s)(i := Holding b1 k1 l c1)" "locked s' = locked s"
      "waiters s' = waiters s"
  shows "lock_inv s'"
proof (rule lock_invI)
  fix j b k l c assume "tasks s' j = Holding b k l c"
  then show "locked s' l" using held_locked [OF inv] old by (auto simp: s' split: if_splits)
next
  fix j j' b k l c b' k' c'
  assume "tasks s' j = Holding b k l c" "tasks s' j' = Holding b' k' l c'"
  then show "j = j'" using one_holder [OF inv] old by (auto simp: s' split: if_splits)
next
  fix l' assume "locked s' l'"
  then obtain j b k c where j: "tasks s j = Holding b k l' c"
    using locked_held [OF inv, of l'] by (auto simp: s')
  show "\<exists>i b k c. tasks s' i = Holding b k l' c"
  proof (cases "j = i")
    case True
    with j old have "l' = l" by simp
    then show ?thesis by (auto simp: s')
  next
    case False
    with j show ?thesis by (auto simp: s')
  qed
next
  fix l show "distinct (waiters s' l)" using queue_distinct [OF inv] by (simp add: s')
next
  fix l j show "j \<in> set (waiters s' l) \<longleftrightarrow> (\<exists>k w c. tasks s' j = Waiting k l w c)"
    using queue_members [OF inv, of j l] old by (auto simp: s')
next
  fix j k l w c assume "tasks s' j = Waiting k l w c" "w = Woken \<or> w = Woken_cancelled"
  then show "\<not> locked s' l \<and> (\<exists>rest. waiters s' l = j # rest)"
    using woken_first [OF inv, of j k l w c] by (auto simp: s' split: if_splits)
qed

text \<open>A waiting call keeps waiting; a future that was not woken is not woken now.\<close>

lemma inv_wait:
  assumes inv: "lock_inv s" and old: "tasks s i = Waiting k l w c"
    and w': "w' = Woken \<or> w' = Woken_cancelled \<Longrightarrow> w = Woken \<or> w = Woken_cancelled"
    and s': "tasks s' = (tasks s)(i := Waiting k1 l w' c1)" "locked s' = locked s"
      "waiters s' = waiters s"
  shows "lock_inv s'"
proof (rule lock_invI)
  fix j b k l c assume "tasks s' j = Holding b k l c"
  then show "locked s' l" using held_locked [OF inv] by (auto simp: s' split: if_splits)
next
  fix j j' b k l c b' k' c'
  assume "tasks s' j = Holding b k l c" "tasks s' j' = Holding b' k' l c'"
  then show "j = j'" using one_holder [OF inv] by (auto simp: s' split: if_splits)
next
  fix l' assume "locked s' l'"
  then obtain j b k c where j: "tasks s j = Holding b k l' c"
    using locked_held [OF inv, of l'] by (auto simp: s')
  with old have "j \<noteq> i" by auto
  with j show "\<exists>i b k c. tasks s' i = Holding b k l' c" by (auto simp: s')
next
  fix l show "distinct (waiters s' l)" using queue_distinct [OF inv] by (simp add: s')
next
  fix l' j show "j \<in> set (waiters s' l') \<longleftrightarrow> (\<exists>k w c. tasks s' j = Waiting k l' w c)"
    using queue_members [OF inv, of j l'] old by (auto simp: s')
next
  fix j k' l' w'' c' assume a: "tasks s' j = Waiting k' l' w'' c'" "w'' = Woken \<or> w'' = Woken_cancelled"
  show "\<not> locked s' l' \<and> (\<exists>rest. waiters s' l' = j # rest)"
  proof (cases "j = i")
    case True
    with a have "l' = l" "w'' = w'" by (auto simp: s')
    with a w' have "w = Woken \<or> w = Woken_cancelled" by simp
    from woken_first [OF inv old this] True \<open>l' = l\<close> show ?thesis by (simp add: s')
  next
    case False
    with a woken_first [OF inv, of j k' l' w'' c'] show ?thesis by (auto simp: s')
  qed
qed

text \<open>A call at its start queues behind the waiters of a lock.\<close>

lemma inv_enqueue:
  assumes inv: "lock_inv s"
    and old: "inside (tasks s i) = None" "waiting_for (tasks s i) = None"
    and s': "tasks s' = (tasks s)(i := Waiting k l Pending c)" "locked s' = locked s"
      "waiters s' = (waiters s)(l := waiters s l @ [i])"
  shows "lock_inv s'"
proof -
  have a: "\<And>b k l c. tasks s i \<noteq> Holding b k l c" "\<And>k l w c. tasks s i \<noteq> Waiting k l w c"
    using old by (auto simp: inside_def waiting_for_def)
  have notin: "i \<notin> set (waiters s l')" for l'
    using queue_members [OF inv, of i l'] a(2) by simp
  show ?thesis
  proof (rule lock_invI)
    fix j b k l c assume "tasks s' j = Holding b k l c"
    then show "locked s' l" using held_locked [OF inv] by (auto simp: s' split: if_splits)
  next
    fix j j' b k l c b' k' c'
    assume "tasks s' j = Holding b k l c" "tasks s' j' = Holding b' k' l c'"
    then show "j = j'" using one_holder [OF inv] by (auto simp: s' split: if_splits)
  next
    fix l' assume "locked s' l'"
    then obtain j b k c where j: "tasks s j = Holding b k l' c"
      using locked_held [OF inv, of l'] by (auto simp: s')
    with a have "j \<noteq> i" by auto
    with j show "\<exists>i b k c. tasks s' i = Holding b k l' c" by (auto simp: s')
  next
    fix l' show "distinct (waiters s' l')"
      using queue_distinct [OF inv, of l'] queue_distinct [OF inv, of l] notin [of l]
      by (auto simp: s')
  next
    fix l' j show "j \<in> set (waiters s' l') \<longleftrightarrow> (\<exists>k w c. tasks s' j = Waiting k l' w c)"
      using queue_members [OF inv, of j l'] notin [of l'] by (auto simp: s')
  next
    fix j k' l' w c' assume w: "tasks s' j = Waiting k' l' w c'" "w = Woken \<or> w = Woken_cancelled"
    then have ji: "j \<noteq> i" by (auto simp: s')
    with w have "tasks s j = Waiting k' l' w c'" by (simp add: s')
    from woken_first [OF inv this w(2)]
    show "\<not> locked s' l' \<and> (\<exists>rest. waiters s' l' = j # rest)" by (auto simp: s')
  qed
qed

text \<open>
  A call that neither waits nor is inside takes a lock that is unlocked and has no
  woken waiter.
\<close>

lemma inv_enter:
  assumes inv: "lock_inv s"
    and old: "inside (tasks s i) = None" "waiting_for (tasks s i) = None"
    and free: "\<not> locked s l"
    and none: "\<And>j k w c. tasks s j = Waiting k l w c \<Longrightarrow> w \<noteq> Woken \<and> w \<noteq> Woken_cancelled"
    and s': "tasks s' = (tasks s)(i := Holding b k l c)" "locked s' = (locked s)(l := True)"
      "waiters s' = waiters s"
  shows "lock_inv s'"
proof -
  have a: "\<And>b k l c. tasks s i \<noteq> Holding b k l c" "\<And>k l w c. tasks s i \<noteq> Waiting k l w c"
    using old by (auto simp: inside_def waiting_for_def)
  have nohold: "tasks s j \<noteq> Holding b' k' l c'" for j b' k' c'
    using held_locked [OF inv, of j b' k' l c'] free by auto
  show ?thesis
  proof (rule lock_invI)
    fix j b k l c assume "tasks s' j = Holding b k l c"
    then show "locked s' l" using held_locked [OF inv] by (auto simp: s' split: if_splits)
  next
    fix j j' b1 k1 l1 c1 b2 k2 c2
    assume "tasks s' j = Holding b1 k1 l1 c1" "tasks s' j' = Holding b2 k2 l1 c2"
    then show "j = j'" using one_holder [OF inv, of j b1 k1 l1 c1 j' b2 k2 c2] nohold
      by (auto simp: s' split: if_splits)
  next
    fix l' assume l': "locked s' l'"
    show "\<exists>i b k c. tasks s' i = Holding b k l' c"
    proof (cases "l' = l")
      case True
      then show ?thesis by (auto simp: s')
    next
      case False
      with l' obtain j b k c where j: "tasks s j = Holding b k l' c"
        using locked_held [OF inv, of l'] by (auto simp: s')
      with a have "j \<noteq> i" by auto
      with j show ?thesis by (auto simp: s')
    qed
  next
    fix l' show "distinct (waiters s' l')" using queue_distinct [OF inv] by (simp add: s')
  next
    fix l' j show "j \<in> set (waiters s' l') \<longleftrightarrow> (\<exists>k w c. tasks s' j = Waiting k l' w c)"
      using queue_members [OF inv, of j l'] a by (auto simp: s')
  next
    fix j k' l' w c' assume w: "tasks s' j = Waiting k' l' w c'" "w = Woken \<or> w = Woken_cancelled"
    then have ji: "j \<noteq> i" by (auto simp: s')
    with w have t: "tasks s j = Waiting k' l' w c'" by (simp add: s')
    with none w(2) have "l' \<noteq> l" by blast
    with woken_first [OF inv t w(2)]
    show "\<not> locked s' l' \<and> (\<exists>rest. waiters s' l' = j # rest)" by (auto simp: s')
  qed
qed

text \<open>The woken waiter takes the lock.\<close>

lemma inv_enter_woken:
  assumes inv: "lock_inv s"
    and old: "tasks s i = Waiting k l Woken c"
    and s': "tasks s' = (tasks s)(i := Holding b k1 l c1)" "locked s' = (locked s)(l := True)"
      "waiters s' = (waiters s)(l := remove1 i (waiters s l))"
  shows "lock_inv s'"
proof -
  from woken_first [OF inv old] obtain rest where free: "\<not> locked s l"
    and q: "waiters s l = i # rest" by blast
  have nohold: "tasks s j \<noteq> Holding b' k' l c'" for j b' k' c'
    using held_locked [OF inv, of j b' k' l c'] free by auto
  have d: "distinct (i # rest)" using queue_distinct [OF inv, of l] q by simp
  show ?thesis
  proof (rule lock_invI)
    fix j b k l c assume "tasks s' j = Holding b k l c"
    then show "locked s' l" using held_locked [OF inv] by (auto simp: s' split: if_splits)
  next
    fix j j' b1 k1 l1 c1 b2 k2 c2
    assume "tasks s' j = Holding b1 k1 l1 c1" "tasks s' j' = Holding b2 k2 l1 c2"
    then show "j = j'" using one_holder [OF inv, of j b1 k1 l1 c1 j' b2 k2 c2] nohold
      by (auto simp: s' split: if_splits)
  next
    fix l' assume l': "locked s' l'"
    show "\<exists>i b k c. tasks s' i = Holding b k l' c"
    proof (cases "l' = l")
      case True
      then show ?thesis by (auto simp: s')
    next
      case False
      with l' obtain j b k c where j: "tasks s j = Holding b k l' c"
        using locked_held [OF inv, of l'] by (auto simp: s')
      with old have "j \<noteq> i" by auto
      with j show ?thesis by (auto simp: s')
    qed
  next
    fix l' show "distinct (waiters s' l')"
      using queue_distinct [OF inv, of l'] queue_distinct [OF inv, of l] by (auto simp: s')
  next
    fix l' j show "j \<in> set (waiters s' l') \<longleftrightarrow> (\<exists>k w c. tasks s' j = Waiting k l' w c)"
    proof (cases "l' = l")
      case True
      have "j \<in> set (remove1 i (waiters s l)) \<longleftrightarrow> j \<in> set (waiters s l) \<and> j \<noteq> i"
        using queue_distinct [OF inv, of l] by auto
      with True queue_members [OF inv, of j l] show ?thesis by (auto simp: s')
    next
      case False
      with queue_members [OF inv, of j l'] old show ?thesis by (auto simp: s')
    qed
  next
    fix j k' l' w c' assume w: "tasks s' j = Waiting k' l' w c'" "w = Woken \<or> w = Woken_cancelled"
    then have ji: "j \<noteq> i" by (auto simp: s')
    with w have t: "tasks s j = Waiting k' l' w c'" by (simp add: s')
    from woken_first [OF inv t w(2)] obtain r where f: "\<not> locked s l'" and h: "waiters s l' = j # r"
      by blast
    from h q ji have "l' \<noteq> l" by auto
    with f h show "\<not> locked s' l' \<and> (\<exists>rest. waiters s' l' = j # rest)" by (auto simp: s')
  qed
qed

text \<open>A waiter leaves the deque.\<close>

lemma inv_leave:
  assumes inv: "lock_inv s"
    and old: "tasks s i = Waiting k l w c"
    and new: "inside t = None" "waiting_for t = None"
    and s': "tasks s' = (tasks s)(i := t)" "locked s' = locked s"
      "waiters s' = (waiters s)(l := remove1 i (waiters s l))"
  shows "lock_inv s'"
proof -
  have b: "\<And>b k l c. t \<noteq> Holding b k l c" "\<And>k l w c. t \<noteq> Waiting k l w c"
    using new by (auto simp: inside_def waiting_for_def)
  show ?thesis
  proof (rule lock_invI)
    fix j b k l c assume "tasks s' j = Holding b k l c"
    then show "locked s' l" using held_locked [OF inv] b(1) [of b k l c]
      by (auto simp: s' split: if_splits)
  next
    fix j j' b1 k1 l1 c1 b2 k2 c2
    assume "tasks s' j = Holding b1 k1 l1 c1" "tasks s' j' = Holding b2 k2 l1 c2"
    then show "j = j'"
      using one_holder [OF inv, of j b1 k1 l1 c1 j' b2 k2 c2] b(1) [of b1 k1 l1 c1]
        b(1) [of b2 k2 l1 c2]
      by (auto simp: s' split: if_splits)
  next
    fix l' assume l': "locked s' l'"
    then obtain j b k c where j: "tasks s j = Holding b k l' c"
      using locked_held [OF inv, of l'] by (auto simp: s')
    with old have "j \<noteq> i" by auto
    with j show "\<exists>i b k c. tasks s' i = Holding b k l' c" by (auto simp: s')
  next
    fix l' show "distinct (waiters s' l')"
      using queue_distinct [OF inv, of l'] queue_distinct [OF inv, of l] by (auto simp: s')
  next
    fix l' j show "j \<in> set (waiters s' l') \<longleftrightarrow> (\<exists>k w c. tasks s' j = Waiting k l' w c)"
    proof (cases "l' = l")
      case True
      have "j \<in> set (remove1 i (waiters s l)) \<longleftrightarrow> j \<in> set (waiters s l) \<and> j \<noteq> i"
        using queue_distinct [OF inv, of l] by auto
      with True queue_members [OF inv, of j l] b(2) show ?thesis by (auto simp: s')
    next
      case False
      with queue_members [OF inv, of j l'] old b(2) show ?thesis by (auto simp: s')
    qed
  next
    fix j k' l' w' c' assume w: "tasks s' j = Waiting k' l' w' c'" "w' = Woken \<or> w' = Woken_cancelled"
    then have ji: "j \<noteq> i" using b(2) [of k' l' w' c'] by (auto simp: s')
    with w have t: "tasks s j = Waiting k' l' w' c'" by (simp add: s')
    from woken_first [OF inv t w(2)] obtain r where f: "\<not> locked s l'" and h: "waiters s l' = j # r"
      by blast
    from h ji have "remove1 i (waiters s l') = j # remove1 i r" by simp
    with f h show "\<not> locked s' l' \<and> (\<exists>rest. waiters s' l' = j # rest)" by (auto simp: s')
  qed
qed

text \<open>The first waiter of an unlocked lock is woken.\<close>

lemma inv_wake:
  assumes inv: "lock_inv s"
    and free: "\<not> locked s l" and q: "waiters s l = h # rest"
    and old: "tasks s h = Waiting k l' Pending c"
    and s': "tasks s' = (tasks s)(h := Waiting k l' Woken c)" "locked s' = locked s"
      "waiters s' = waiters s"
  shows "lock_inv s'"
proof -
  have "h \<in> set (waiters s l)" using q by simp
  with queue_members [OF inv, of h l] old have ll: "l' = l" by auto
  show ?thesis
  proof (rule lock_invI)
    fix j b k l c assume "tasks s' j = Holding b k l c"
    then show "locked s' l" using held_locked [OF inv] by (auto simp: s' split: if_splits)
  next
    fix j j' b1 k1 l1 c1 b2 k2 c2
    assume "tasks s' j = Holding b1 k1 l1 c1" "tasks s' j' = Holding b2 k2 l1 c2"
    then show "j = j'" using one_holder [OF inv, of j b1 k1 l1 c1 j' b2 k2 c2]
      by (auto simp: s' split: if_splits)
  next
    fix l1 assume "locked s' l1"
    then obtain j b k c where j: "tasks s j = Holding b k l1 c"
      using locked_held [OF inv, of l1] by (auto simp: s')
    with old have "j \<noteq> h" by auto
    with j show "\<exists>i b k c. tasks s' i = Holding b k l1 c" by (auto simp: s')
  next
    fix l1 show "distinct (waiters s' l1)" using queue_distinct [OF inv] by (simp add: s')
  next
    fix l1 j show "j \<in> set (waiters s' l1) \<longleftrightarrow> (\<exists>k w c. tasks s' j = Waiting k l1 w c)"
      using queue_members [OF inv, of j l1] old by (auto simp: s')
  next
    fix j k1 l1 w c1 assume w: "tasks s' j = Waiting k1 l1 w c1" "w = Woken \<or> w = Woken_cancelled"
    show "\<not> locked s' l1 \<and> (\<exists>rest. waiters s' l1 = j # rest)"
    proof (cases "j = h")
      case True
      with w have "l1 = l'" by (auto simp: s')
      with ll free q True show ?thesis by (simp add: s')
    next
      case False
      with w have "tasks s j = Waiting k1 l1 w c1" by (simp add: s')
      from woken_first [OF inv this w(2)] show ?thesis by (simp add: s')
    qed
  qed
qed

text \<open>The call inside a lock leaves it: the lock is unlocked.\<close>

lemma inv_exit:
  assumes inv: "lock_inv s"
    and old: "tasks s i = Holding b k l c"
    and new: "inside t = None" "waiting_for t = None"
    and s': "tasks s' = (tasks s)(i := t)" "locked s' = (locked s)(l := False)"
      "waiters s' = waiters s"
  shows "lock_inv s'"
proof -
  have n: "\<And>b k l c. t \<noteq> Holding b k l c" "\<And>k l w c. t \<noteq> Waiting k l w c"
    using new by (auto simp: inside_def waiting_for_def)
  show ?thesis
  proof (rule lock_invI)
    fix j b1 k1 l1 c1 assume h: "tasks s' j = Holding b1 k1 l1 c1"
    then have ji: "j \<noteq> i" using n(1) [of b1 k1 l1 c1] by (auto simp: s')
    with h have t: "tasks s j = Holding b1 k1 l1 c1" by (simp add: s')
    have "l1 \<noteq> l"
    proof
      assume "l1 = l"
      with t have "tasks s j = Holding b1 k1 l c1" by simp
      from one_holder [OF inv this old] ji show False by simp
    qed
    with held_locked [OF inv t] show "locked s' l1" by (simp add: s')
  next
    fix j j' b1 k1 l1 c1 b2 k2 c2
    assume "tasks s' j = Holding b1 k1 l1 c1" "tasks s' j' = Holding b2 k2 l1 c2"
    then show "j = j'"
      using one_holder [OF inv, of j b1 k1 l1 c1 j' b2 k2 c2] n(1) [of b1 k1 l1 c1]
        n(1) [of b2 k2 l1 c2]
      by (auto simp: s' split: if_splits)
  next
    fix l1 assume l1: "locked s' l1"
    then have ne: "l1 \<noteq> l" by (auto simp: s' split: if_splits)
    with l1 obtain j b1 k1 c1 where j: "tasks s j = Holding b1 k1 l1 c1"
      using locked_held [OF inv, of l1] by (auto simp: s')
    with old ne have "j \<noteq> i" by auto
    with j show "\<exists>i b k c. tasks s' i = Holding b k l1 c" by (auto simp: s')
  next
    fix l1 show "distinct (waiters s' l1)" using queue_distinct [OF inv] by (simp add: s')
  next
    fix l1 j show "j \<in> set (waiters s' l1) \<longleftrightarrow> (\<exists>k w c. tasks s' j = Waiting k l1 w c)"
      using queue_members [OF inv, of j l1] old n(2) by (auto simp: s')
  next
    fix j k1 l1 w c1 assume w: "tasks s' j = Waiting k1 l1 w c1" "w = Woken \<or> w = Woken_cancelled"
    then have "j \<noteq> i" using n(2) [of k1 l1 w c1] by (auto simp: s')
    with w have "tasks s j = Waiting k1 l1 w c1" by (simp add: s')
    from woken_first [OF inv this w(2)]
    show "\<not> locked s' l1 \<and> (\<exists>rest. waiters s' l1 = j # rest)" by (auto simp: s')
  qed
qed

lemma wake_up_first_frame [simp]:
  "locked (wake_up_first l s) = locked s" "waiters (wake_up_first l s) = waiters s"
  "store (wake_up_first l s) = store s" "repo_locks (wake_up_first l s) = repo_locks s"
  "created (wake_up_first l s) = created s"
  by (simp_all add: wake_up_first_def split: list.splits task.splits wait.splits)

lemma wake_up_first_inv:
  assumes "lock_inv s" and "\<not> locked s l"
  shows "lock_inv (wake_up_first l s)"
proof (cases "waiters s l")
  case Nil
  with assms(1) show ?thesis by (simp add: wake_up_first_def)
next
  case (Cons h rest)
  show ?thesis
  proof (cases "\<exists>k l' c. tasks s h = Waiting k l' Pending c")
    case True
    then obtain k l' c where t: "tasks s h = Waiting k l' Pending c" by blast
    have "lock_inv (s\<lparr>tasks := (tasks s)(h := Waiting k l' Woken c)\<rparr>)"
      by (rule inv_wake [OF assms(1) assms(2) Cons t]) simp_all
    with Cons t show ?thesis by (simp add: wake_up_first_def)
  next
    case False
    then have "wake_up_first l s = s"
      using Cons by (auto simp add: wake_up_first_def split: task.splits wait.splits)
    with assms(1) show ?thesis by simp
  qed
qed

text \<open>Waking touches a waiter only, and only its future.\<close>

lemma wake_up_first_tasks:
  "tasks (wake_up_first l s) j = tasks s j \<or>
   (\<exists>k l' c. tasks s j = Waiting k l' Pending c \<and> tasks (wake_up_first l s) j = Waiting k l' Woken c)"
  by (auto simp add: wake_up_first_def split: list.splits task.splits wait.splits)

lemma wake_up_first_other:
  assumes "waiting_for (tasks s j) = None"
  shows "tasks (wake_up_first l s) j = tasks s j"
  using wake_up_first_tasks [of l s j] assms by (auto simp: waiting_for_def)

lemma wake_commute:
  assumes "waiting_for (tasks s i) = None" and "waiting_for t = None"
    and "\<And>j. j \<in> set (waiters s l) \<Longrightarrow> waiting_for (tasks s j) \<noteq> None"
  shows "(wake_up_first l s)\<lparr>tasks := (tasks (wake_up_first l s))(i := t)\<rparr> =
         wake_up_first l (s\<lparr>tasks := (tasks s)(i := t)\<rparr>)"
proof (cases "waiters s l")
  case Nil
  then show ?thesis by (simp add: wake_up_first_def)
next
  case (Cons h rest)
  with assms(3) [of h] assms(1) have hi: "h \<noteq> i" by auto
  then have same: "((tasks s)(i := t)) h = tasks s h" by simp
  show ?thesis
  proof (cases "\<exists>k l' c. tasks s h = Waiting k l' Pending c")
    case True
    then obtain k l' c where t: "tasks s h = Waiting k l' Pending c" by blast
    have "((tasks s)(h := Waiting k l' Woken c))(i := t) =
          ((tasks s)(i := t))(h := Waiting k l' Woken c)"
      using hi by (rule fun_upd_twist)
    with Cons t hi show ?thesis by (simp add: wake_up_first_def)
  next
    case False
    then have "wake_up_first l s = s"
      using Cons by (auto simp add: wake_up_first_def split: task.splits wait.splits)
    moreover from False have "wake_up_first l (s\<lparr>tasks := (tasks s)(i := t)\<rparr>) =
        s\<lparr>tasks := (tasks s)(i := t)\<rparr>"
      using Cons hi by (auto simp add: wake_up_first_def split: task.splits wait.splits)
    ultimately show ?thesis by simp
  qed
qed

text \<open>The body keeps the invariant.\<close>

lemma queue_waiting:
  assumes "lock_inv s" and "j \<in> set (waiters s l)"
  shows "waiting_for (tasks s j) \<noteq> None"
  using queue_members [OF assms(1), of j l] assms(2) by (auto simp: waiting_for_def)

lemma await_coro_inv:
  assumes inv: "lock_inv s" and old: "tasks s i = Holding b k l c"
  shows "lock_inv (await_coro i k l seg s)"
proof (cases "seg (store s)")
  case (Pair st res)
  show ?thesis
  proof (cases res)
    case (Inl c')
    have "lock_inv (s\<lparr>store := st, tasks := (tasks s)(i := Holding False k l c')\<rparr>)"
      by (rule inv_stay [OF inv old]) simp_all
    with Pair Inl show ?thesis by (simp add: await_coro_def)
  next
    case (Inr r)
    let ?s1 = "s\<lparr>store := st, locked := (locked s)(l := False)\<rparr>"
    let ?s2 = "?s1\<lparr>tasks := (tasks ?s1)(i := Finished r)\<rparr>"
    have l: "locked s l" by (rule held_locked [OF inv old])
    have 2: "lock_inv ?s2"
      by (rule inv_exit [OF inv old]) (simp_all add: inside_def waiting_for_def)
    have "lock_inv (wake_up_first l ?s2)"
      by (rule wake_up_first_inv [OF 2]) simp
    moreover have "(wake_up_first l ?s1)\<lparr>tasks := (tasks (wake_up_first l ?s1))(i := Finished r)\<rparr>
        = wake_up_first l ?s2"
    proof (rule wake_commute)
      show "waiting_for (tasks ?s1 i) = None" using old by (simp add: waiting_for_def)
      show "waiting_for (Finished r) = None" by (simp add: waiting_for_def)
      fix j assume "j \<in> set (waiters ?s1 l)"
      then show "waiting_for (tasks ?s1 j) \<noteq> None" using queue_waiting [OF inv, of j l] by simp
    qed
    ultimately show ?thesis using Pair Inr l by (simp add: await_coro_def release_def)
  qed
qed

lemma setdefault_lock_frame [simp]:
  "tasks (snd (setdefault_lock k s)) = tasks s" "locked (snd (setdefault_lock k s)) = locked s"
  "waiters (snd (setdefault_lock k s)) = waiters s" "store (snd (setdefault_lock k s)) = store s"
  by (simp_all add: setdefault_lock_def split: option.splits)

lemma setdefault_lock_registry:
  "repo_locks (snd (setdefault_lock k s)) k = Some (fst (setdefault_lock k s))"
  "repo_locks s k' = Some l' \<Longrightarrow> repo_locks (snd (setdefault_lock k s)) k' = Some l'"
  by (auto simp add: setdefault_lock_def split: option.splits)

lemma setdefault_lock_inv: "lock_inv (snd (setdefault_lock k s)) = lock_inv s"
  by (rule lock_inv_cong) simp_all

text \<open>Every step of the process keeps the invariant.\<close>

lemma run_task_inv:
  assumes inv: "lock_inv s"
  shows "lock_inv (run_task cwd i s)"
proof (cases "tasks s i")
  case (Start b d c)
  obtain f g where c: "c = Coro f g" by (cases c)
  have idle: "inside (tasks s i) = None" "waiting_for (tasks s i) = None"
    using Start by (simp_all add: inside_def waiting_for_def)
  show ?thesis
  proof (cases b)
    case True
    have "lock_inv (s\<lparr>tasks := (tasks s)(i := Finished (Inl CancelledError))\<rparr>)"
      by (rule inv_idle [OF inv idle]) (simp_all add: inside_def waiting_for_def)
    with Start c True show ?thesis by (simp add: run_task_def)
  next
    case False
    let ?k = "lock_key cwd d"
    obtain l s1 where g: "setdefault_lock ?k s = (l, s1)" by (cases "setdefault_lock ?k s")
    then have s1: "s1 = snd (setdefault_lock ?k s)" by simp
    have inv1: "lock_inv s1" using inv by (simp add: s1 setdefault_lock_inv)
    have f1: "tasks s1 = tasks s" "locked s1 = locked s" "waiters s1 = waiters s"
      by (simp_all add: s1)
    have idle1: "inside (tasks s1 i) = None" "waiting_for (tasks s1 i) = None"
      using idle by (simp_all add: f1)
    show ?thesis
    proof (cases "\<not> locked s1 l \<and> list_all (\<lambda>j. is_cancelled (tasks s1 j)) (waiters s1 l)")
      case True
      let ?s2 = "s1\<lparr>locked := (locked s1)(l := True),
                     tasks := (tasks s1)(i := Holding False ?k l (Coro f g))\<rparr>"
      have "lock_inv ?s2"
      proof (rule inv_enter [OF inv1 idle1])
        show "\<not> locked s1 l" using True by simp
      next
        fix j k w c' assume w: "tasks s1 j = Waiting k l w c'"
        then have "j \<in> set (waiters s1 l)" using queue_members [OF inv1, of j l] by auto
        with True have "is_cancelled (tasks s1 j)" by (auto simp: list_all_iff)
        with w show "w \<noteq> Woken \<and> w \<noteq> Woken_cancelled"
          by (auto simp: is_cancelled_def split: wait.splits)
      qed simp_all
      then have "lock_inv (await_coro i ?k l f ?s2)"
        by (rule await_coro_inv [where b = False and c = "Coro f g"]) simp
      with Start c False g True show ?thesis
        by (simp add: run_task_def get_repo_lock_def Let_def)
    next
      case F: False
      have e: "lock_inv (s1\<lparr>waiters := (waiters s1)(l := waiters s1 l @ [i]),
                         tasks := (tasks s1)(i := Waiting ?k l Pending (Coro f g))\<rparr>)"
        by (rule inv_enqueue [OF inv1 idle1]) simp_all
      from F have F': "(\<not> locked s1 l \<and> list_all (\<lambda>j. is_cancelled (tasks s1 j)) (waiters s1 l))
          = False" by simp
      have "run_task cwd i s = s1\<lparr>waiters := (waiters s1)(l := waiters s1 l @ [i]),
                         tasks := (tasks s1)(i := Waiting ?k l Pending (Coro f g))\<rparr>"
        using False
        by (simp only: run_task_def get_repo_lock_def Start c g task.case coro.case if_False
            prod.case Let_def F')
      with e show ?thesis by simp
    qed
  qed
next
  case (Waiting k l w c)
  obtain f g where c: "c = Coro f g" by (cases c)
  show ?thesis
  proof (cases "w = Pending")
    case True
    with Waiting c inv show ?thesis by (simp add: run_task_def)
  next
    case np: False
    show ?thesis
    proof (cases "w = Woken")
      case True
      let ?s2 = "s\<lparr>locked := (locked s)(l := True),
                    waiters := (waiters s)(l := remove1 i (waiters s l)),
                    tasks := (tasks s)(i := Holding False k l (Coro f g))\<rparr>"
      have "lock_inv ?s2"
        by (rule inv_enter_woken [OF inv Waiting [unfolded True]]) simp_all
      then have "lock_inv (await_coro i k l f ?s2)"
        by (rule await_coro_inv [where b = False and c = "Coro f g"]) simp
      with Waiting c True show ?thesis by (simp add: run_task_def)
    next
      case False
      let ?s1 = "s\<lparr>waiters := (waiters s)(l := remove1 i (waiters s l)),
                    tasks := (tasks s)(i := Finished (Inl CancelledError))\<rparr>"
      have 1: "lock_inv ?s1"
        by (rule inv_leave [OF inv Waiting]) (simp_all add: inside_def waiting_for_def)
      have "lock_inv (if locked ?s1 l then ?s1 else wake_up_first l ?s1)"
        using 1 wake_up_first_inv [OF 1, of l] by simp
      with Waiting c np False show ?thesis
        by (cases w) (simp_all add: run_task_def Let_def)
    qed
  qed
next
  case (Holding b k l c)
  obtain f g where c: "c = Coro f g" by (cases c)
  from await_coro_inv [OF inv Holding, of "if b then g else f"] Holding c
  show ?thesis by (simp add: run_task_def)
next
  case (Finished r)
  with inv show ?thesis by (simp add: run_task_def)
qed

lemma cancel_task_inv:
  assumes inv: "lock_inv s"
  shows "lock_inv (cancel_task i s)"
proof (cases "tasks s i")
  case (Start b d c)
  have "lock_inv (s\<lparr>tasks := (tasks s)(i := Start True d c)\<rparr>)"
    by (rule inv_idle [OF inv, of i]) (simp_all add: Start inside_def waiting_for_def)
  with Start show ?thesis by (simp add: cancel_task_def)
next
  case (Waiting k l w c)
  let ?w = "case w of Pending \<Rightarrow> Cancelled | Woken \<Rightarrow> Woken_cancelled | _ \<Rightarrow> w"
  have "lock_inv (s\<lparr>tasks := (tasks s)(i := Waiting k l ?w c)\<rparr>)"
  proof (rule inv_wait [OF inv Waiting, where w' = ?w and ?k1.0 = k and ?c1.0 = c])
    assume "?w = Woken \<or> ?w = Woken_cancelled"
    then show "w = Woken \<or> w = Woken_cancelled" by (cases w) simp_all
  qed simp_all
  with Waiting show ?thesis by (simp add: cancel_task_def)
next
  case (Holding b k l c)
  have "lock_inv (s\<lparr>tasks := (tasks s)(i := Holding True k l c)\<rparr>)"
    by (rule inv_stay [OF inv Holding]) simp_all
  with Holding show ?thesis by (simp add: cancel_task_def)
next
  case (Finished r)
  with inv show ?thesis by (simp add: cancel_task_def)
qed

lemma step_inv: "lock_inv s \<Longrightarrow> lock_inv (step cwd s ev)"
proof (cases ev)
  case (Run i)
  assume "lock_inv s" with Run show ?thesis by (simp add: run_task_inv)
next
  case (Cancel i)
  assume "lock_inv s" with Cancel show ?thesis by (simp add: cancel_task_inv)
next
  case (Get_repo_lock d)
  assume "lock_inv s" with Get_repo_lock show ?thesis
    by (simp add: get_repo_lock_def setdefault_lock_inv)
next
  case Clear_locks
  assume "lock_inv s"
  moreover have "lock_inv (clear_locks s) = lock_inv s"
    by (rule lock_inv_cong) (simp_all add: clear_locks_def)
  ultimately show ?thesis using Clear_locks by simp
qed

lemma exec_inv: "lock_inv s \<Longrightarrow> lock_inv (exec cwd evs s)"
  unfolding exec_def by (induction evs arbitrary: s) (simp_all add: step_inv)

lemma initial_inv: "lock_inv (initial st calls)"
  by (simp add: lock_inv_def initial_def)

text \<open>The registry and the lock of a call.\<close>

lemma wake_up_first_slots [simp]:
  "inside (tasks (wake_up_first l s) j) = inside (tasks s j)"
  "waiting_for (tasks (wake_up_first l s) j) = waiting_for (tasks s j)"
  "result_of (tasks (wake_up_first l s) j) = result_of (tasks s j)"
  using wake_up_first_tasks [of l s j]
  by (auto simp: inside_def waiting_for_def result_of_def)

lemma release_frame [simp]:
  "repo_locks (snd (release l s)) = repo_locks s" "store (snd (release l s)) = store s"
  "inside (tasks (snd (release l s)) j) = inside (tasks s j)"
  "waiting_for (tasks (snd (release l s)) j) = waiting_for (tasks s j)"
  "result_of (tasks (snd (release l s)) j) = result_of (tasks s j)"
  by (simp_all add: release_def)

lemma release_locked:
  "locked s l \<Longrightarrow> fst (release l s) = None \<and> \<not> locked (snd (release l s)) l"
  by (simp add: release_def)

lemma await_coro_registry [simp]: "repo_locks (await_coro i k l seg s) = repo_locks s"
proof (cases "seg (store s)")
  case (Pair st res)
  show ?thesis
  proof (cases res)
    case (Inl c')
    with Pair show ?thesis by (simp add: await_coro_def)
  next
    case (Inr r)
    obtain e s' where r: "release l (s\<lparr>store := st\<rparr>) = (e, s')"
      by (cases "release l (s\<lparr>store := st\<rparr>)")
    then have "repo_locks s' = repo_locks s"
      using release_frame(1) [of l "s\<lparr>store := st\<rparr>"] by simp
    with Pair Inr r show ?thesis by (cases e) (simp_all add: await_coro_def)
  qed
qed

lemma await_coro_other:
  assumes "j \<noteq> i"
  shows "inside (tasks (await_coro i k l seg s) j) = inside (tasks s j)"
    and "waiting_for (tasks (await_coro i k l seg s) j) = waiting_for (tasks s j)"
    and "result_of (tasks (await_coro i k l seg s) j) = result_of (tasks s j)"
proof -
  obtain st res where p: "seg (store s) = (st, res)" by (cases "seg (store s)")
  have "inside (tasks (await_coro i k l seg s) j) = inside (tasks s j) \<and>
        waiting_for (tasks (await_coro i k l seg s) j) = waiting_for (tasks s j) \<and>
        result_of (tasks (await_coro i k l seg s) j) = result_of (tasks s j)"
  proof (cases res)
    case (Inl c')
    with p assms show ?thesis by (simp add: await_coro_def)
  next
    case (Inr r)
    obtain e s' where r: "release l (s\<lparr>store := st\<rparr>) = (e, s')"
      by (cases "release l (s\<lparr>store := st\<rparr>)")
    then have "inside (tasks s' j) = inside (tasks s j)"
      "waiting_for (tasks s' j) = waiting_for (tasks s j)"
      "result_of (tasks s' j) = result_of (tasks s j)"
      using release_frame(3,4,5) [of l "s\<lparr>store := st\<rparr>" j] by simp_all
    with p Inr r assms show ?thesis by (cases e) (simp_all add: await_coro_def)
  qed
  then show "inside (tasks (await_coro i k l seg s) j) = inside (tasks s j)"
    and "waiting_for (tasks (await_coro i k l seg s) j) = waiting_for (tasks s j)"
    and "result_of (tasks (await_coro i k l seg s) j) = result_of (tasks s j)" by simp_all
qed

lemma await_coro_self:
  "inside (tasks (await_coro i k l seg s) i) = Some p \<Longrightarrow> p = (k, l)"
  "waiting_for (tasks (await_coro i k l seg s) i) = None"
proof -
  obtain st res where p: "seg (store s) = (st, res)" by (cases "seg (store s)")
  have "(inside (tasks (await_coro i k l seg s) i) = Some p \<longrightarrow> p = (k, l)) \<and>
        waiting_for (tasks (await_coro i k l seg s) i) = None"
  proof (cases res)
    case (Inl c')
    with p show ?thesis by (auto simp add: await_coro_def inside_def waiting_for_def)
  next
    case (Inr r)
    obtain e s' where r: "release l (s\<lparr>store := st\<rparr>) = (e, s')"
      by (cases "release l (s\<lparr>store := st\<rparr>)")
    with p Inr show ?thesis
      by (cases e) (simp_all add: await_coro_def inside_def waiting_for_def)
  qed
  then show "inside (tasks (await_coro i k l seg s) i) = Some p \<Longrightarrow> p = (k, l)"
    and "waiting_for (tasks (await_coro i k l seg s) i) = None" by simp_all
qed

text \<open>What the body leaves when the call ends in it.\<close>

lemma await_coro_result:
  assumes "locked s l" and "result_of (tasks (await_coro i k l seg s) i) = Some r"
  shows "\<exists>st. seg (store s) = (st, Inr r) \<and> store (await_coro i k l seg s) = st \<and>
              \<not> locked (await_coro i k l seg s) l"
proof -
  obtain st res where p: "seg (store s) = (st, res)" by (cases "seg (store s)")
  show ?thesis
  proof (cases res)
    case (Inl c')
    with p assms(2) show ?thesis by (simp add: await_coro_def result_of_def)
  next
    case (Inr r')
    from assms(1) have "release l (s\<lparr>store := st\<rparr>) =
        (None, wake_up_first l (s\<lparr>store := st, locked := (locked s)(l := False)\<rparr>))"
      by (simp add: release_def)
    with p Inr assms(2) show ?thesis by (simp add: await_coro_def result_of_def)
  qed
qed

text \<open>What \<open>run_task\<close> is, case by case.\<close>

lemma run_task_start_cancelled:
  "tasks s i = Start True d c \<Longrightarrow>
   run_task cwd i s = s\<lparr>tasks := (tasks s)(i := Finished (Inl CancelledError))\<rparr>"
  by (cases c) (simp add: run_task_def)

lemma run_task_start_free:
  assumes "tasks s i = Start False d (Coro f g)"
    and "setdefault_lock (lock_key cwd d) s = (l, s1)"
    and "\<not> locked s1 l" and "list_all (\<lambda>j. is_cancelled (tasks s1 j)) (waiters s1 l)"
  shows "run_task cwd i s =
     await_coro i (lock_key cwd d) l f
       (s1\<lparr>locked := (locked s1)(l := True),
           tasks := (tasks s1)(i := Holding False (lock_key cwd d) l (Coro f g))\<rparr>)"
  using assms by (simp add: run_task_def get_repo_lock_def Let_def)

lemma run_task_start_busy:
  assumes "tasks s i = Start False d (Coro f g)"
    and "setdefault_lock (lock_key cwd d) s = (l, s1)"
    and "locked s1 l \<or> \<not> list_all (\<lambda>j. is_cancelled (tasks s1 j)) (waiters s1 l)"
  shows "run_task cwd i s =
     s1\<lparr>waiters := (waiters s1)(l := waiters s1 l @ [i]),
        tasks := (tasks s1)(i := Waiting (lock_key cwd d) l Pending (Coro f g))\<rparr>"
proof -
  from assms(3) have "(\<not> locked s1 l \<and> list_all (\<lambda>j. is_cancelled (tasks s1 j)) (waiters s1 l))
      = False" by blast
  then show ?thesis
    by (simp only: run_task_def get_repo_lock_def assms(1,2) task.case coro.case if_False
        prod.case Let_def)
qed

lemma run_task_pending:
  "tasks s i = Waiting k l Pending c \<Longrightarrow> run_task cwd i s = s"
  by (cases c) (simp add: run_task_def)

lemma run_task_woken:
  "tasks s i = Waiting k l Woken (Coro f g) \<Longrightarrow>
   run_task cwd i s =
     await_coro i k l f
       (s\<lparr>locked := (locked s)(l := True),
          waiters := (waiters s)(l := remove1 i (waiters s l)),
          tasks := (tasks s)(i := Holding False k l (Coro f g))\<rparr>)"
  by (simp add: run_task_def)

lemma run_task_cancelled:
  assumes "tasks s i = Waiting k l w c" and "w = Cancelled \<or> w = Woken_cancelled"
  shows "run_task cwd i s =
     (let s1 = s\<lparr>waiters := (waiters s)(l := remove1 i (waiters s l)),
                 tasks := (tasks s)(i := Finished (Inl CancelledError))\<rparr>
      in if locked s1 l then s1 else wake_up_first l s1)"
  using assms by (cases c) (auto simp add: run_task_def)

lemma run_task_cancelled_slots:
  assumes "tasks s i = Waiting k l w c" and "w = Cancelled \<or> w = Woken_cancelled"
  shows "inside (tasks (run_task cwd i s) j) = (if j = i then None else inside (tasks s j))"
    and "waiting_for (tasks (run_task cwd i s) j) =
           (if j = i then None else waiting_for (tasks s j))"
    and "result_of (tasks (run_task cwd i s) j) =
           (if j = i then Some (Inl CancelledError) else result_of (tasks s j))"
    and "repo_locks (run_task cwd i s) = repo_locks s"
    and "store (run_task cwd i s) = store s"
    and "locked (run_task cwd i s) = locked s"
proof -
  let ?s1 = "s\<lparr>waiters := (waiters s)(l := remove1 i (waiters s l)),
                tasks := (tasks s)(i := Finished (Inl CancelledError))\<rparr>"
  have e: "run_task cwd i s = (if locked ?s1 l then ?s1 else wake_up_first l ?s1)"
    using run_task_cancelled [OF assms, of cwd] by (simp add: Let_def)
  have t: "inside (tasks ?s1 j) = (if j = i then None else inside (tasks s j))"
    "waiting_for (tasks ?s1 j) = (if j = i then None else waiting_for (tasks s j))"
    "result_of (tasks ?s1 j) = (if j = i then Some (Inl CancelledError) else result_of (tasks s j))"
    by (simp_all add: inside_def waiting_for_def result_of_def)
  show "inside (tasks (run_task cwd i s) j) = (if j = i then None else inside (tasks s j))"
    unfolding e using t(1) by (cases "locked ?s1 l") (simp_all del: fun_upd_apply)
  show "waiting_for (tasks (run_task cwd i s) j) =
           (if j = i then None else waiting_for (tasks s j))"
    unfolding e using t(2) by (cases "locked ?s1 l") (simp_all del: fun_upd_apply)
  show "result_of (tasks (run_task cwd i s) j) =
           (if j = i then Some (Inl CancelledError) else result_of (tasks s j))"
    unfolding e using t(3) by (cases "locked ?s1 l") (simp_all del: fun_upd_apply)
  show "repo_locks (run_task cwd i s) = repo_locks s" unfolding e by simp
  show "store (run_task cwd i s) = store s" unfolding e by simp
  show "locked (run_task cwd i s) = locked s" unfolding e by simp
qed

lemma run_task_holding:
  "tasks s i = Holding b k l (Coro f g) \<Longrightarrow>
   run_task cwd i s = await_coro i k l (if b then g else f) s"
  by (simp add: run_task_def)

lemma run_task_finished: "tasks s i = Finished r \<Longrightarrow> run_task cwd i s = s"
  by (simp add: run_task_def)

text \<open>The registry only grows when a task runs, and a call that gets a lock gets the
  registered one.\<close>

lemma run_task_registry:
  assumes "repo_locks s k' = Some l'"
  shows "repo_locks (run_task cwd i s) k' = Some l'"
proof (cases "tasks s i")
  case (Start b d c)
  obtain f g where c: "c = Coro f g" by (cases c)
  show ?thesis
  proof (cases b)
    case True
    with Start assms show ?thesis by (simp add: run_task_start_cancelled)
  next
    case False
    from Start c False have st: "tasks s i = Start False d (Coro f g)" by simp
    obtain l s1 where g: "setdefault_lock (lock_key cwd d) s = (l, s1)"
      by (cases "setdefault_lock (lock_key cwd d) s")
    from setdefault_lock_registry(2) [OF assms, of "lock_key cwd d"] g
    have r: "repo_locks s1 k' = Some l'" by simp
    show ?thesis
    proof (cases "\<not> locked s1 l \<and> list_all (\<lambda>j. is_cancelled (tasks s1 j)) (waiters s1 l)")
      case True
      with run_task_start_free [OF st g] r show ?thesis by simp
    next
      case F: False
      then have "locked s1 l \<or> \<not> list_all (\<lambda>j. is_cancelled (tasks s1 j)) (waiters s1 l)"
        by blast
      from run_task_start_busy [OF st g this] r show ?thesis by simp
    qed
  qed
next
  case (Waiting k l w c)
  obtain f g where c: "c = Coro f g" by (cases c)
  show ?thesis
  proof (cases w)
    case Pending
    with Waiting assms show ?thesis by (simp add: run_task_pending)
  next
    case Woken
    with Waiting c assms show ?thesis by (simp add: run_task_woken)
  next
    case Cancelled
    then have "w = Cancelled \<or> w = Woken_cancelled" by simp
    from run_task_cancelled_slots(4) [OF Waiting this, of cwd] assms show ?thesis by simp
  next
    case Woken_cancelled
    then have "w = Cancelled \<or> w = Woken_cancelled" by simp
    from run_task_cancelled_slots(4) [OF Waiting this, of cwd] assms show ?thesis by simp
  qed
next
  case (Holding b k l c)
  obtain f g where c: "c = Coro f g" by (cases c)
  with Holding assms show ?thesis by (simp add: run_task_holding)
next
  case (Finished r)
  with assms show ?thesis by (simp add: run_task_finished)
qed

lemma run_task_slots:
  assumes "inside (tasks (run_task cwd i s) j) = Some p \<or>
           waiting_for (tasks (run_task cwd i s) j) = Some p"
  shows "(inside (tasks s j) = Some p \<or> waiting_for (tasks s j) = Some p) \<or>
         repo_locks (run_task cwd i s) (fst p) = Some (snd p)"
proof (cases "tasks s i")
  case (Start b d c)
  obtain f g where c: "c = Coro f g" by (cases c)
  show ?thesis
  proof (cases b)
    case True
    with Start assms show ?thesis
      by (auto simp add: run_task_start_cancelled inside_def waiting_for_def split: if_splits)
  next
    case False
    let ?k = "lock_key cwd d"
    from Start c False have st: "tasks s i = Start False d (Coro f g)" by simp
    obtain l s1 where g: "setdefault_lock ?k s = (l, s1)"
      by (cases "setdefault_lock ?k s")
    then have s1: "tasks s1 = tasks s" "repo_locks s1 ?k = Some l"
      using setdefault_lock_frame(1) [of ?k s] setdefault_lock_registry(1) [of ?k s] by simp_all
    show ?thesis
    proof (cases "\<not> locked s1 l \<and> list_all (\<lambda>j. is_cancelled (tasks s1 j)) (waiters s1 l)")
      case True
      note eq = run_task_start_free [OF st g]
      from True have e: "run_task cwd i s = await_coro i ?k l f
           (s1\<lparr>locked := (locked s1)(l := True),
               tasks := (tasks s1)(i := Holding False ?k l (Coro f g))\<rparr>)" by (simp add: eq)
      show ?thesis
      proof (cases "j = i")
        case True
        with assms e have "p = (?k, l)" by (auto simp: await_coro_self)
        with e s1 show ?thesis by simp
      next
        case False
        with assms e s1 show ?thesis by (simp add: await_coro_other)
      qed
    next
      case F: False
      then have "locked s1 l \<or> \<not> list_all (\<lambda>j. is_cancelled (tasks s1 j)) (waiters s1 l)"
        by blast
      note e = run_task_start_busy [OF st g this]
      show ?thesis
      proof (cases "j = i")
        case True
        with assms e have "p = (?k, l)" by (auto simp: inside_def waiting_for_def)
        with e s1 show ?thesis by simp
      next
        case False
        with assms e s1 show ?thesis by simp
      qed
    qed
  qed
next
  case (Waiting k l w c)
  obtain f g where c: "c = Coro f g" by (cases c)
  have old: "waiting_for (tasks s i) = Some (k, l)" using Waiting by (simp add: waiting_for_def)
  show ?thesis
  proof (cases w)
    case Pending
    with Waiting assms show ?thesis by (simp add: run_task_pending)
  next
    case Woken
    note e = run_task_woken [OF Waiting [unfolded Woken c], of cwd]
    show ?thesis
    proof (cases "j = i")
      case True
      with assms e have "p = (k, l)" by (auto simp: await_coro_self)
      with old True show ?thesis by simp
    next
      case False
      with assms e show ?thesis by (simp add: await_coro_other)
    qed
  next
    case Cancelled
    then have "w = Cancelled \<or> w = Woken_cancelled" by simp
    from run_task_cancelled_slots(1,2) [OF Waiting this, of cwd j] assms show ?thesis
      by (auto split: if_splits)
  next
    case Woken_cancelled
    then have "w = Cancelled \<or> w = Woken_cancelled" by simp
    from run_task_cancelled_slots(1,2) [OF Waiting this, of cwd j] assms show ?thesis
      by (auto split: if_splits)
  qed
next
  case (Holding b k l c)
  obtain f g where c: "c = Coro f g" by (cases c)
  have old: "inside (tasks s i) = Some (k, l)" using Holding by (simp add: inside_def)
  note e = run_task_holding [OF Holding [unfolded c], of cwd]
  show ?thesis
  proof (cases "j = i")
    case True
    with assms e have "p = (k, l)" by (auto simp: await_coro_self)
    with old True show ?thesis by simp
  next
    case False
    with assms e show ?thesis by (simp add: await_coro_other)
  qed
next
  case (Finished r)
  with assms show ?thesis by (simp add: run_task_finished)
qed

lemma cancel_task_frame [simp]:
  "repo_locks (cancel_task i s) = repo_locks s" "locked (cancel_task i s) = locked s"
  "store (cancel_task i s) = store s"
  "inside (tasks (cancel_task i s) j) = inside (tasks s j)"
  "waiting_for (tasks (cancel_task i s) j) = waiting_for (tasks s j)"
  "result_of (tasks (cancel_task i s) j) = result_of (tasks s j)"
  by (auto simp add: cancel_task_def inside_def waiting_for_def result_of_def split: task.splits)

lemma step_registered:
  assumes reg: "registered s" and ev: "ev \<noteq> Clear_locks"
  shows "registered (step cwd s ev)"
proof (cases ev)
  case (Run i)
  show ?thesis
    unfolding registered_def Run step.simps
  proof (intro allI impI)
    fix j k l
    assume "inside (tasks (run_task cwd i s) j) = Some (k, l) \<or>
            waiting_for (tasks (run_task cwd i s) j) = Some (k, l)"
    from run_task_slots [OF this]
    show "repo_locks (run_task cwd i s) k = Some l"
    proof
      assume "inside (tasks s j) = Some (k, l) \<or> waiting_for (tasks s j) = Some (k, l)"
      with reg have "repo_locks s k = Some l" unfolding registered_def by blast
      then show ?thesis by (rule run_task_registry)
    next
      assume "repo_locks (run_task cwd i s) (fst (k, l)) = Some (snd (k, l))"
      then show ?thesis by simp
    qed
  qed
next
  case (Cancel i)
  with reg show ?thesis by (simp add: registered_def)
next
  case (Get_repo_lock d)
  show ?thesis
    unfolding registered_def Get_repo_lock step.simps get_repo_lock_def
  proof (intro allI impI)
    fix j k l
    assume "inside (tasks (snd (setdefault_lock (lock_key cwd d) s)) j) = Some (k, l) \<or>
            waiting_for (tasks (snd (setdefault_lock (lock_key cwd d) s)) j) = Some (k, l)"
    then have "inside (tasks s j) = Some (k, l) \<or> waiting_for (tasks s j) = Some (k, l)"
      by simp
    with reg have "repo_locks s k = Some l" unfolding registered_def by blast
    then show "repo_locks (snd (setdefault_lock (lock_key cwd d) s)) k = Some l"
      by (rule setdefault_lock_registry(2))
  qed
next
  case Clear_locks
  with ev show ?thesis by simp
qed

lemma exec_registered:
  "registered s \<Longrightarrow> Clear_locks \<notin> set evs \<Longrightarrow> registered (exec cwd evs s)"
  unfolding exec_def
proof (induction evs arbitrary: s)
  case Nil
  then show ?case by simp
next
  case (Cons ev evs)
  from Cons.prems have "registered (step cwd s ev)" by (auto intro: step_registered)
  with Cons show ?case by simp
qed

lemma initial_registered: "registered (initial st calls)"
  by (simp add: registered_def initial_def inside_def waiting_for_def)

text \<open>How a call ends.\<close>

lemma run_task_other_result:
  assumes "j \<noteq> i"
  shows "result_of (tasks (run_task cwd i s) j) = result_of (tasks s j)"
proof (cases "tasks s i")
  case (Start b d c)
  obtain f g where c: "c = Coro f g" by (cases c)
  show ?thesis
  proof (cases b)
    case True
    with Start assms show ?thesis by (simp add: run_task_start_cancelled)
  next
    case False
    from Start c False have st: "tasks s i = Start False d (Coro f g)" by simp
    obtain l s1 where g: "setdefault_lock (lock_key cwd d) s = (l, s1)"
      by (cases "setdefault_lock (lock_key cwd d) s")
    then have s1: "tasks s1 = tasks s"
      using setdefault_lock_frame(1) [of "lock_key cwd d" s] by simp
    show ?thesis
    proof (cases "\<not> locked s1 l \<and> list_all (\<lambda>j. is_cancelled (tasks s1 j)) (waiters s1 l)")
      case True
      with run_task_start_free [OF st g] assms s1 show ?thesis by (simp add: await_coro_other)
    next
      case F: False
      then have "locked s1 l \<or> \<not> list_all (\<lambda>j. is_cancelled (tasks s1 j)) (waiters s1 l)"
        by blast
      from run_task_start_busy [OF st g this] assms s1 show ?thesis by simp
    qed
  qed
next
  case (Waiting k l w c)
  obtain f g where c: "c = Coro f g" by (cases c)
  show ?thesis
  proof (cases w)
    case Pending
    with Waiting show ?thesis by (simp add: run_task_pending)
  next
    case Woken
    with Waiting c assms show ?thesis by (simp add: run_task_woken await_coro_other)
  next
    case Cancelled
    then have "w = Cancelled \<or> w = Woken_cancelled" by simp
    from run_task_cancelled_slots(3) [OF Waiting this, of cwd j] assms show ?thesis by simp
  next
    case Woken_cancelled
    then have "w = Cancelled \<or> w = Woken_cancelled" by simp
    from run_task_cancelled_slots(3) [OF Waiting this, of cwd j] assms show ?thesis by simp
  qed
next
  case (Holding b k l c)
  obtain f g where c: "c = Coro f g" by (cases c)
  with Holding assms show ?thesis by (simp add: run_task_holding await_coro_other)
next
  case (Finished r)
  then show ?thesis by (simp add: run_task_finished)
qed

lemma run_task_result:
  assumes inv: "lock_inv s" and none: "result_of (tasks s i) = None"
    and some: "result_of (tasks (run_task cwd i s) i) = Some r"
  shows "((r = Inl CancelledError \<and> next_segment (tasks s i) = None) \<or>
          (\<exists>seg st'. next_segment (tasks s i) = Some seg \<and> seg (store s) = (st', Inr r) \<and>
             store (run_task cwd i s) = st')) \<and>
         (\<forall>k l. inside (tasks s i) = Some (k, l) \<longrightarrow> \<not> locked (run_task cwd i s) l)"
proof (cases "tasks s i")
  case (Start b d c)
  obtain f g where c: "c = Coro f g" by (cases c)
  have ni: "inside (tasks s i) = None" using Start by (simp add: inside_def)
  show ?thesis
  proof (cases b)
    case True
    with Start c some ni show ?thesis
      by (simp add: run_task_start_cancelled result_of_def next_segment_def)
  next
    case False
    from Start c False have st: "tasks s i = Start False d (Coro f g)" by simp
    obtain l s1 where g: "setdefault_lock (lock_key cwd d) s = (l, s1)"
      by (cases "setdefault_lock (lock_key cwd d) s")
    then have s1: "store s1 = store s"
      using setdefault_lock_frame(4) [of "lock_key cwd d" s] by simp
    show ?thesis
    proof (cases "\<not> locked s1 l \<and> list_all (\<lambda>j. is_cancelled (tasks s1 j)) (waiters s1 l)")
      case True
      let ?s2 = "s1\<lparr>locked := (locked s1)(l := True),
           tasks := (tasks s1)(i := Holding False (lock_key cwd d) l (Coro f g))\<rparr>"
      from True have e: "run_task cwd i s = await_coro i (lock_key cwd d) l f ?s2"
        by (simp add: run_task_start_free [OF st g])
      have "locked ?s2 l" by simp
      from await_coro_result [OF this some [unfolded e]] s1 e st ni show ?thesis
        by (auto simp add: next_segment_def)
    next
      case F: False
      then have "locked s1 l \<or> \<not> list_all (\<lambda>j. is_cancelled (tasks s1 j)) (waiters s1 l)"
        by blast
      from run_task_start_busy [OF st g this] some show ?thesis by (simp add: result_of_def)
    qed
  qed
next
  case (Waiting k l w c)
  obtain f g where c: "c = Coro f g" by (cases c)
  have ni: "inside (tasks s i) = None" using Waiting by (simp add: inside_def)
  show ?thesis
  proof (cases w)
    case Pending
    with Waiting none some show ?thesis by (simp add: run_task_pending)
  next
    case Woken
    let ?s2 = "s\<lparr>locked := (locked s)(l := True),
          waiters := (waiters s)(l := remove1 i (waiters s l)),
          tasks := (tasks s)(i := Holding False k l (Coro f g))\<rparr>"
    from Waiting c Woken have e: "run_task cwd i s = await_coro i k l f ?s2"
      by (simp add: run_task_woken)
    have "locked ?s2 l" by simp
    from await_coro_result [OF this some [unfolded e]] e Waiting c Woken ni show ?thesis
      by (auto simp add: next_segment_def)
  next
    case Cancelled
    then have w: "w = Cancelled \<or> w = Woken_cancelled" by simp
    from run_task_cancelled_slots(3) [OF Waiting w, of cwd i] some Waiting c Cancelled ni
    show ?thesis by (simp add: next_segment_def)
  next
    case Woken_cancelled
    then have w: "w = Cancelled \<or> w = Woken_cancelled" by simp
    from run_task_cancelled_slots(3) [OF Waiting w, of cwd i] some Waiting c Woken_cancelled ni
    show ?thesis by (simp add: next_segment_def)
  qed
next
  case (Holding b k l c)
  obtain f g where c: "c = Coro f g" by (cases c)
  from Holding c have e: "run_task cwd i s = await_coro i k l (if b then g else f) s"
    by (simp add: run_task_holding)
  have "locked s l" by (rule held_locked [OF inv Holding])
  from await_coro_result [OF this some [unfolded e]] e Holding c show ?thesis
    by (auto simp add: next_segment_def inside_def)
next
  case (Finished r')
  with none show ?thesis by (simp add: result_of_def)
qed

lemma step_result:
  assumes inv: "lock_inv s" and none: "result_of (tasks s i) = None"
    and some: "result_of (tasks (step cwd s ev) i) = Some r"
  shows "ev = Run i \<and>
         ((r = Inl CancelledError \<and> next_segment (tasks s i) = None) \<or>
          (\<exists>seg st'. next_segment (tasks s i) = Some seg \<and> seg (store s) = (st', Inr r) \<and>
             store (step cwd s ev) = st')) \<and>
         (\<forall>k l. inside (tasks s i) = Some (k, l) \<longrightarrow> \<not> locked (step cwd s ev) l)"
proof (cases ev)
  case (Run j)
  show ?thesis
  proof (cases "j = i")
    case True
    with Run run_task_result [OF inv none, of cwd r] some show ?thesis by simp
  next
    case False
    then have "result_of (tasks (run_task cwd j s) i) = result_of (tasks s i)"
      using run_task_other_result [of i j cwd s] by simp
    with Run none some show ?thesis by simp
  qed
next
  case (Cancel j)
  with none some show ?thesis by simp
next
  case (Get_repo_lock d)
  with none some show ?thesis by (simp add: get_repo_lock_def)
next
  case Clear_locks
  with none some show ?thesis by (simp add: clear_locks_def)
qed

text \<open>The ingestion touches the index only.\<close>

lemma run_ingestion_frame:
  assumes "run_ingestion now kobj_rid payload n = (out, n')"
  shows "repo_locks n' = repo_locks n" and "locked n' = locked n" and "waiters n' = waiters n"
    and "tasks n' = tasks n"
    and "process_github_event_bundle now (store n) kobj_rid payload = (out, store n')"
  using assms by (auto simp: run_ingestion_def split: prod.splits)

text \<open>The states of a process.\<close>

lemma reachable_inv: "lock_inv (exec cwd evs (initial st calls))"
  by (rule exec_inv [OF initial_inv])

lemma inside_exclusive:
  assumes "lock_inv s" and "inside (tasks s i) = Some (k, l)" and "inside (tasks s j) = Some (k', l)"
  shows "i = j"
proof -
  from assms(2) obtain b c where "tasks s i = Holding b k l c"
    by (auto simp: inside_def split: task.splits)
  moreover from assms(3) obtain b' c' where "tasks s j = Holding b' k' l c'"
    by (auto simp: inside_def split: task.splits)
  ultimately show ?thesis using one_holder [OF assms(1)] by blast
qed

lemma locked_iff_inside:
  assumes "lock_inv s"
  shows "locked s l \<longleftrightarrow> (\<exists>h key. inside (tasks s h) = Some (key, l))"
proof
  assume "locked s l"
  from locked_held [OF assms this] obtain h b k c where "tasks s h = Holding b k l c" by blast
  then have "inside (tasks s h) = Some (k, l)" by (simp add: inside_def)
  then show "\<exists>h key. inside (tasks s h) = Some (key, l)" by blast
next
  assume "\<exists>h key. inside (tasks s h) = Some (key, l)"
  then obtain h key where "inside (tasks s h) = Some (key, l)" by blast
  then obtain b c where "tasks s h = Holding b key l c"
    by (auto simp: inside_def split: task.splits)
  from held_locked [OF assms this] show "locked s l" .
qed

section \<open>The lock and the ingestion\<close>

text \<open>
  Claim C3, as the spec states it, runs the ingestion under the lock of the
  repository's directory, one operation at a time for a key. The ingestion never calls
  \<open>with_repo_lock\<close>. Here a push for \<open>acme/widgets\<close> is ingested on a process whose
  registry is empty: it succeeds and writes its event row, and the registry still has
  no lock for the directory of \<open>acme/widgets\<close>. The same push, ingested while a call of
  \<open>with_repo_lock\<close> is inside the lock of that directory, succeeds as well, and has not
  queued for the lock. And the lock is one per key only until \<open>clear_locks\<close> is called:
  a call that enters after it gets a new lock for the same key, and two calls are
  inside for one key.
\<close>

theorem ingestion_without_lock_counterexample:
  "(let payload =
      [(''repository'', JObj [(''owner'', JObj [(''login'', JStr ''acme'')]),
                              (''name'', JStr ''widgets''),
                              (''clone_url'', JStr ''https://github.com/acme/widgets.git'')]),
       (''head_commit'', JObj [(''id'', JStr ''abc1234'')])];
       key = ''/srv/app/data/repos/acme__widgets.git'';
       raise = (\<lambda>db. (db, Inr (Inl CancelledError)));
       operation = Coro (\<lambda>db. (db, Inl (Coro (\<lambda>db. (db, Inr (Inr ()))) raise))) raise;
       idle = initial empty_db (\<lambda>i. (key, operation));
       busy = exec ''/srv/app'' [Run 0] idle;
       r = run_ingestion ''2024-01-01 00:00:00'' ''E1'' payload idle;
       r' = run_ingestion ''2024-01-01 00:00:00'' ''E1'' payload busy;
       cleared = exec ''/srv/app'' [Run 0, Clear_locks, Run 1] idle
    in get_repo_dir ''/srv/app'' ''data/repos'' ''orn:github.repo:acme/widgets'' = Inr key \<and>
       lock_key ''/srv/app'' key = key \<and>
       status (fst r) = ''success'' \<and> events (store (snd r)) ''E1'' \<noteq> None \<and>
       repo_locks (snd r) key = None \<and>
       inside (tasks busy 0) = Some (key, 0) \<and> locked busy 0 \<and>
       status (fst r') = ''success'' \<and> events (store (snd r')) ''E1'' \<noteq> None \<and>
       inside (tasks (snd r') 0) = Some (key, 0) \<and> locked (snd r') 0 \<and>
       waiters (snd r') 0 = [] \<and>
       inside (tasks cleared 0) = Some (key, 0) \<and> inside (tasks cleared 1) = Some (key, 1))"
  by code_simp

text \<open>
  Claim C3, amended. The ingestion does not use the per-repository lock:
  \<open>process_github_event_bundle\<close> and its caller never call \<open>with_repo_lock\<close>, and an
  ingestion is one step on the index that leaves the registry, the locks and the
  calls in flight as they were. \<open>with_repo_lock\<close> itself, for the operations run
  through it on one event loop, guarantees in every state the process reaches: at most
  one call is inside a lock object, and, as long as \<open>clear_locks\<close> has not been
  called, at most one call is inside for a key; a lock is locked exactly when a call is
  inside it, so no exit leaves it locked. A call ends only when its task runs, and
  then either with \<open>CancelledError\<close>, raised before its operation was started, or with
  what the segment of the operation that ran returned or raised, the store being as
  that segment left it; the lock it was inside is then unlocked.
\<close>

theorem repo_lock_discipline:
  "(run_ingestion now kobj_rid payload n = (out, n') \<longrightarrow>
      repo_locks n' = repo_locks n \<and> locked n' = locked n \<and> waiters n' = waiters n \<and>
      tasks n' = tasks n \<and>
      process_github_event_bundle now (store n) kobj_rid payload = (out, store n')) \<and>
   (s = exec cwd evs (initial st calls) \<longrightarrow>
      (inside (tasks s i) = Some (k, l) \<and> inside (tasks s j) = Some (k', l) \<longrightarrow> i = j) \<and>
      (Clear_locks \<notin> set evs \<and>
       inside (tasks s i) = Some (k, l) \<and> inside (tasks s j) = Some (k, l') \<longrightarrow> i = j) \<and>
      (locked s l \<longleftrightarrow> (\<exists>h key. inside (tasks s h) = Some (key, l))) \<and>
      (result_of (tasks s i) = None \<and> result_of (tasks (step cwd s ev) i) = Some r \<longrightarrow>
         ev = Run i \<and>
         ((r = Inl CancelledError \<and> next_segment (tasks s i) = None) \<or>
          (\<exists>seg st'. next_segment (tasks s i) = Some seg \<and> seg (store s) = (st', Inr r) \<and>
             store (step cwd s ev) = st')) \<and>
         (inside (tasks s i) = Some (k, l) \<longrightarrow> \<not> locked (step cwd s ev) l)))"
proof (intro conjI impI)
  assume "run_ingestion now kobj_rid payload n = (out, n')"
  then show "repo_locks n' = repo_locks n" and "locked n' = locked n"
    and "waiters n' = waiters n" and "tasks n' = tasks n"
    and "process_github_event_bundle now (store n) kobj_rid payload = (out, store n')"
    by (rule run_ingestion_frame)+
next
  assume s: "s = exec cwd evs (initial st calls)"
  then have inv: "lock_inv s" by (simp add: reachable_inv)
  {
    assume "inside (tasks s i) = Some (k, l) \<and> inside (tasks s j) = Some (k', l)"
    then show "i = j" using inside_exclusive [OF inv] by blast
  }
  {
    assume a: "Clear_locks \<notin> set evs \<and>
       inside (tasks s i) = Some (k, l) \<and> inside (tasks s j) = Some (k, l')"
    then have "registered s" unfolding s by (simp add: exec_registered initial_registered)
    with a have "repo_locks s k = Some l" "repo_locks s k = Some l'"
      unfolding registered_def by blast+
    then have "l' = l" by simp
    with a show "i = j" using inside_exclusive [OF inv] by blast
  }
  show "locked s l \<longleftrightarrow> (\<exists>h key. inside (tasks s h) = Some (key, l))"
    by (rule locked_iff_inside [OF inv])
  {
    assume a: "result_of (tasks s i) = None \<and> result_of (tasks (step cwd s ev) i) = Some r"
    then have n: "result_of (tasks s i) = None"
      and r: "result_of (tasks (step cwd s ev) i) = Some r" by simp_all
    note t = step_result [OF inv n r]
    from t show "ev = Run i" by blast
    from t show "(r = Inl CancelledError \<and> next_segment (tasks s i) = None) \<or>
          (\<exists>seg st'. next_segment (tasks s i) = Some seg \<and> seg (store s) = (st', Inr r) \<and>
             store (step cwd s ev) = st')" by blast
    {
      assume "inside (tasks s i) = Some (k, l)"
      with t show "\<not> locked (step cwd s ev) l" by blast
    }
  }
qed

theorem repo_lock_discipline_witness:
  "(let key = ''/srv/app/data/repos/acme__widgets.git'';
        cancel = (\<lambda>n::nat. (n, Inr (Inl CancelledError) :: (nat, nat) coro + (py_exc + nat)));
        operation = Coro (\<lambda>n. (Suc n, Inl (Coro (\<lambda>n. (Suc n, Inr (Inr n))) cancel))) cancel;
        s = exec ''/srv/app'' [Run 0, Run 1] (initial 0 (\<lambda>i. (key, operation)));
        s' = step ''/srv/app'' s (Run 0);
        raise = (\<lambda>db::index_db. (db, Inr (Inl CancelledError)
                   :: (index_db, unit) coro + (py_exc + unit)));
        n = initial empty_db (\<lambda>i. (key, Coro raise raise));
        r = run_ingestion ''2024-01-01 00:00:00'' ''E1''
              [(''repository'', JObj [(''owner'', JObj [(''login'', JStr ''acme'')]),
                                      (''name'', JStr ''widgets''),
                                      (''clone_url'', JStr ''https://github.com/acme/widgets.git'')]),
               (''head_commit'', JObj [(''id'', JStr ''abc1234'')])] n
    in inside (tasks s 0) = Some (key, 0) \<and>
       inside (tasks s 1) \<noteq> Some (key, 0) \<and> inside (tasks s 1) \<noteq> Some (key, 1) \<and>
       locked s 0 \<and>
       result_of (tasks s' 0) = Some (Inr 1) \<and> \<not> locked s' 0 \<and>
       repo_locks (snd r) = repo_locks n \<and> tasks (snd r) = tasks n)"
proof -
  let ?key = "''/srv/app/data/repos/acme__widgets.git''"
  let ?cancel = "(\<lambda>n::nat. (n, Inr (Inl CancelledError) :: (nat, nat) coro + (py_exc + nat)))"
  let ?operation = "Coro (\<lambda>n. (Suc n, Inl (Coro (\<lambda>n. (Suc n, Inr (Inr n))) ?cancel))) ?cancel"
  let ?calls = "(\<lambda>i::nat. (?key, ?operation))"
  let ?s = "exec ''/srv/app'' [Run 0, Run 1] (initial 0 ?calls)"
  let ?s' = "step ''/srv/app'' ?s (Run 0)"
  let ?raise = "(\<lambda>db::index_db. (db, Inr (Inl CancelledError)
                   :: (index_db, unit) coro + (py_exc + unit)))"
  let ?n = "initial empty_db (\<lambda>i::nat. (?key, Coro ?raise ?raise))"
  let ?r = "run_ingestion ''2024-01-01 00:00:00'' ''E1''
              [(''repository'', JObj [(''owner'', JObj [(''login'', JStr ''acme'')]),
                                      (''name'', JStr ''widgets''),
                                      (''clone_url'', JStr ''https://github.com/acme/widgets.git'')]),
               (''head_commit'', JObj [(''id'', JStr ''abc1234'')])] ?n"
  have in0: "inside (tasks ?s 0) = Some (?key, 0)" by code_simp
  have none: "result_of (tasks ?s 0) = None" by code_simp
  have some: "result_of (tasks ?s' 0) = Some (Inr 1)" by code_simp
  have nc: "Clear_locks \<notin> set [Run 0, Run 1]" by simp
  have p: "?r = (fst ?r, snd ?r)" by simp
  note t = repo_lock_discipline [where cwd = "''/srv/app''" and evs = "[Run 0, Run 1]"
      and st = 0 and calls = ?calls and s = ?s, THEN conjunct2, rule_format, OF refl]
  from t [where i = 0 and j = 1 and k = ?key and k' = ?key and l = 0, THEN conjunct1] in0
  have 1: "inside (tasks ?s 1) \<noteq> Some (?key, 0)" by auto
  from t [where i = 0 and j = 1 and k = ?key and l = 0 and l' = 1,
      THEN conjunct2, THEN conjunct1] in0 nc
  have 2: "inside (tasks ?s 1) \<noteq> Some (?key, 1)" by auto
  from t [where l = 0, THEN conjunct2, THEN conjunct2, THEN conjunct1] in0
  have 3: "locked ?s 0" by blast
  from t [where i = 0 and ev = "Run 0" and r = "Inr 1" and k = ?key and l = 0,
      THEN conjunct2, THEN conjunct2, THEN conjunct2] none some in0
  have 4: "\<not> locked ?s' 0" by blast
  from repo_lock_discipline [where now = "''2024-01-01 00:00:00''" and n = ?n
      and out = "fst ?r" and n' = "snd ?r", THEN conjunct1] p
  have 5: "repo_locks (snd ?r) = repo_locks ?n \<and> tasks (snd ?r) = tasks ?n" by blast
  from in0 1 2 3 some 4 5 show ?thesis unfolding Let_def by blast
qed

end
